theory Spec2Isabelle
  imports Complex_Main
begin

section \<open>Tensors\<close>

text \<open>
  The program works on torch tensors. A tensor is modelled as torch stores a contiguous
  one: its shape and its elements in row-major order. Float tensors hold \<open>real\<close>
  elements (the values of float32 are idealised as reals: rounding, overflow, inf and nan
  are outside the model), long tensors hold \<open>int\<close> elements.
\<close>

datatype error = IndexError | RuntimeError | AttributeError | ValueError

record 'a tensor =
  shape :: "nat list"
  data :: "'a list"

definition well_shaped :: "'a tensor \<Rightarrow> bool" where
  "well_shaped t = (length (data t) = prod_list (shape t))"

text \<open>Sequencing of fallible computations: the first exception raised ends the call.\<close>

definition ebind :: "error + 'a \<Rightarrow> ('a \<Rightarrow> error + 'b) \<Rightarrow> error + 'b" where
  "ebind m f = (case m of Inl e \<Rightarrow> Inl e | Inr x \<Rightarrow> f x)"

text \<open>\<open>torch.zeros\<close> of a shape (the source allocates and then calls \<open>zero_()\<close>).\<close>

definition zeros :: "nat list \<Rightarrow> int tensor" where
  "zeros sh = \<lparr>shape = sh, data = replicate (prod_list sh) 0\<rparr>"

text \<open>
  \<open>t.unsqueeze(dim)\<close>: a new axis of size 1 at position \<open>dim\<close>; the elements stay
  as they are. \<open>unsqueeze_at\<close> is the insertion at a position already checked,
  \<open>unsqueeze\<close> checks Python's \<open>dim\<close> (negative counts from the end).
\<close>

definition unsqueeze_at :: "nat \<Rightarrow> 'a tensor \<Rightarrow> 'a tensor" where
  "unsqueeze_at j t = t\<lparr>shape := take j (shape t) @ [1] @ drop j (shape t)\<rparr>"

definition unsqueeze :: "int \<Rightarrow> 'a tensor \<Rightarrow> error + 'a tensor" where
  "unsqueeze d t =
     (let r = int (length (shape t)); j = (if d < 0 then d + r + 1 else d)
      in if 0 \<le> j \<and> j \<le> r then Inr (unsqueeze_at (nat j) t) else Inl IndexError)"

text \<open>\<open>t.type(torch.FloatTensor)\<close> on a long tensor.\<close>

definition to_float :: "int tensor \<Rightarrow> real tensor" where
  "to_float t = \<lparr>shape = shape t, data = map real_of_int (data t)\<rparr>"

text \<open>\<open>t / c\<close> for a Python number \<open>c\<close>: elementwise. (At \<open>c = 0\<close> torch gives
  inf or nan, which the reals do not have; HOL's \<open>x / 0\<close> is \<open>0\<close>.)\<close>

definition tdiv :: "real tensor \<Rightarrow> real \<Rightarrow> real tensor" where
  "tdiv t c = t\<lparr>data := map (\<lambda>x. x / c) (data t)\<rparr>"

section \<open>One-hot construction\<close>

text \<open>
  \<open>self.scatter_(2, index, value)\<close> on a tensor of rank 3, the only use in the program:
  for every position \<open>(i, j, k)\<close> of \<open>index\<close>, \<open>self[i][j][index[i][j][k]] = value\<close>.
  torch returns at once when \<open>index\<close> has no element; otherwise \<open>index\<close> must have
  the rank of \<open>self\<close>, must not exceed it on the axes 0 and 1, and every index must lie
  in \<open>[0, self.size(2))\<close>.
\<close>

definition scatter_target :: "nat list \<Rightarrow> nat list \<Rightarrow> int list \<Rightarrow> nat \<Rightarrow> error + nat" where
  "scatter_target ssh ish idx p =
     (let b = ssh ! 1; d = ssh ! 2; b' = ish ! 1; c' = ish ! 2;
          i = p div (b' * c'); j = (p div c') mod b'; x = idx ! p
      in if 0 \<le> x \<and> x < int d then Inr ((i * b + j) * d + nat x) else Inl RuntimeError)"

fun scatter_loop :: "(nat \<Rightarrow> error + nat) \<Rightarrow> int \<Rightarrow> nat list \<Rightarrow> int list \<Rightarrow> error + int list" where
  "scatter_loop tgt v [] xs = Inr xs"
| "scatter_loop tgt v (p # ps) xs =
     (case tgt p of Inl e \<Rightarrow> Inl e | Inr off \<Rightarrow> scatter_loop tgt v ps (xs[off := v]))"

definition scatter_2 :: "int tensor \<Rightarrow> int tensor \<Rightarrow> int \<Rightarrow> error + int tensor" where
  "scatter_2 self index v =
     (if prod_list (shape index) = 0 then Inr self
      else if length (shape self) \<noteq> 3 \<or> length (shape index) \<noteq> 3 then Inl RuntimeError
      else if shape self ! 0 < shape index ! 0 \<or> shape self ! 1 < shape index ! 1
        then Inl RuntimeError
      else ebind (scatter_loop (scatter_target (shape self) (shape index) (data index)) v
                    [0..<prod_list (shape index)] (data self))
             (\<lambda>xs. Inr (self\<lparr>data := xs\<rparr>)))"

text \<open>
  \<^verbatim>\<open>
  def one_hot(tensor, dimension):
      while len(tensor.shape) < 2:
          tensor = tensor.unsqueeze(0)
      onehot = torch.LongTensor(tensor.shape[0], tensor.shape[1], dimension).to(tensor.device)
      onehot.zero_().scatter_(2, tensor.unsqueeze(-1), 1)
      return onehot
  \<close>
  The \<open>while\<close> loop is \<open>one_hot_promote\<close>. A negative \<open>dimension\<close> makes the allocation
  raise.
\<close>

function one_hot_promote :: "'a tensor \<Rightarrow> 'a tensor" where
  "one_hot_promote t =
     (if length (shape t) < 2 then one_hot_promote (unsqueeze_at 0 t) else t)"
  by pat_completeness auto
termination
  by (relation "measure (\<lambda>t. 2 - length (shape t))") (auto simp: unsqueeze_at_def)

definition one_hot :: "int tensor \<Rightarrow> int \<Rightarrow> error + int tensor" where
  "one_hot tensor dimension =
     (let t = one_hot_promote tensor
      in if dimension < 0 then Inl RuntimeError
         else scatter_2 (zeros [shape t ! 0, shape t ! 1, nat dimension])
                (unsqueeze_at (length (shape t)) t) 1)"

section \<open>Embedding projection\<close>

text \<open>
  The slices of a tensor along its last axis, in order: \<open>prod_list (butlast shape)\<close>
  runs of \<open>last shape\<close> elements. A tensor of rank 0 counts as one run of one element,
  as torch treats it for \<open>dim=-1\<close>.
\<close>

definition last_axis :: "nat list \<Rightarrow> nat" where
  "last_axis sh = (if sh = [] then 1 else last sh)"

definition rows :: "'a tensor \<Rightarrow> 'a list list" where
  "rows t = map (\<lambda>i. take (last_axis (shape t)) (drop (i * last_axis (shape t)) (data t)))
              [0..<prod_list (butlast (shape t))]"

text \<open>\<open>F.softmax(t, dim=-1)\<close> and \<open>t.log_softmax(-1)\<close>, on one slice.\<close>

definition softmax_row :: "real list \<Rightarrow> real list" where
  "softmax_row xs = map (\<lambda>x. exp x / sum_list (map exp xs)) xs"

definition log_softmax_row :: "real list \<Rightarrow> real list" where
  "log_softmax_row xs = map (\<lambda>x. x - ln (sum_list (map exp xs))) xs"

definition softmax :: "real tensor \<Rightarrow> real tensor" where
  "softmax t = t\<lparr>data := concat (map softmax_row (rows t))\<rparr>"

text \<open>
  \<open>torch.matmul(a, w)\<close> for a matrix \<open>w\<close> (the weight of an \<open>nn.Embedding\<close> always
  is one): every slice of \<open>a\<close> along its last axis is multiplied with every column of
  \<open>w\<close>. It raises when \<open>a\<close> has rank 0 or its last axis differs from the rows of
  \<open>w\<close>. The other operand ranks of \<open>torch.matmul\<close> do not occur in the program and
  are rejected here.
\<close>

definition dot :: "real list \<Rightarrow> real list \<Rightarrow> real" where
  "dot xs ys = sum_list (map2 (*) xs ys)"

definition column :: "real tensor \<Rightarrow> nat \<Rightarrow> real list" where
  "column w j = map (\<lambda>k. data w ! (k * (shape w ! 1) + j)) [0..<shape w ! 0]"

definition matmul :: "real tensor \<Rightarrow> real tensor \<Rightarrow> error + real tensor" where
  "matmul a w =
     (if length (shape w) \<noteq> 2 \<or> shape a = [] then Inl RuntimeError
      else if last (shape a) \<noteq> shape w ! 0 then Inl RuntimeError
      else Inr \<lparr>shape = butlast (shape a) @ [shape w ! 1],
                data = concat (map (\<lambda>r. map (\<lambda>j. dot r (column w j)) [0..<shape w ! 1])
                                   (rows a))\<rparr>)"

record embedding =
  weight :: "real tensor"

text \<open>
  \<^verbatim>\<open>
  def embed_inputs(embedding, logits, device='cuda', print_entropy=False):
      probs = F.softmax(logits, dim=-1)
      if print_entropy:
          _entropy = - probs * torch.log(probs)
          _entropy = torch.sum(_entropy)
          print(_entropy)
      probs = probs.to(device)
      return torch.matmul(probs, embedding.weight)
  \<close>
  The result is what was printed together with the value returned or the exception raised.
  Moving a tensor to a device does not change its elements; the device is carried along
  only.
\<close>

definition embed_inputs ::
  "embedding \<Rightarrow> real tensor \<Rightarrow> string \<Rightarrow> bool \<Rightarrow> real list \<times> (error + real tensor)" where
  "embed_inputs embedding logits device print_entropy =
     (let probs = softmax logits;
          printed = (if print_entropy then [sum_list (map (\<lambda>p. - p * ln p) (data probs))]
                     else [])
      in (printed, matmul probs (weight embedding)))"

text \<open>
  The probability-weighted sum of the rows of a table, as the specification words the
  projection: \<open>p\<^sub>0 \<cdot> row\<^sub>0 + p\<^sub>1 \<cdot> row\<^sub>1 + \<dots>\<close>, a vector of \<open>e\<close> entries.
\<close>

definition weighted_row_sum :: "nat \<Rightarrow> real list \<Rightarrow> real list list \<Rightarrow> real list" where
  "weighted_row_sum e ps rs =
     foldr (\<lambda>(p, r) acc. map2 (+) (map ((*) p) r) acc) (zip ps rs) (replicate e 0)"

section \<open>Greedy token selection and transcript reconstruction\<close>

text \<open>
  \<open>torch.argmax\<close> returns the index of a largest element, the first one among equal
  largest elements.
\<close>

fun first_max_index :: "real list \<Rightarrow> nat" where
  "first_max_index [] = 0"
| "first_max_index (x # xs) = (if list_all (\<lambda>y. y \<le> x) xs then 0 else Suc (first_max_index xs))"

text \<open>
  \<open>torch.topk(t, k=1, dim=-1)\<close> returns the index of a largest element of every slice as
  well, but the library does not say which one among equal largest elements, and it need
  not be the first. The choice is a parameter, \<open>topk1\<close>: the index that \<open>topk\<close> returns
  for a non-empty slice. \<open>topk\<close> raises on an empty slice.
  \<^verbatim>\<open>
  def _greedy(logits):
      _, last = torch.topk(logits, k=1, dim=-1)
      return last
  \<close>
\<close>

definition greedy :: "(real list \<Rightarrow> nat) \<Rightarrow> real tensor \<Rightarrow> error + int tensor" where
  "greedy topk1 logits =
     (if last_axis (shape logits) = 0 then Inl RuntimeError
      else Inr \<lparr>shape = (if shape logits = [] then [] else butlast (shape logits) @ [1]),
                data = map (\<lambda>r. int (topk1 r)) (rows logits)\<rparr>)"

text \<open>
  \<open>torch.cat((a, b), dim=d)\<close>: the shapes agree except on axis \<open>d\<close>. (torch also
  accepts a tensor of shape \<open>(0,)\<close> beside any other and skips it.)
\<close>

definition cat :: "nat \<Rightarrow> 'a tensor \<Rightarrow> 'a tensor \<Rightarrow> error + 'a tensor" where
  "cat d a b =
     (if shape a = [0] \<and> shape b \<noteq> [0] then Inr b
      else if shape b = [0] \<and> shape a \<noteq> [0] then Inr a
      else if length (shape a) \<le> d then Inl IndexError
      else if length (shape a) \<noteq> length (shape b) \<or> take d (shape a) \<noteq> take d (shape b)
              \<or> drop (Suc d) (shape a) \<noteq> drop (Suc d) (shape b) then Inl RuntimeError
      else let ca = prod_list (drop d (shape a)); cb = prod_list (drop d (shape b))
           in Inr \<lparr>shape = (shape a)[d := shape a ! d + shape b ! d],
                     data = concat (map (\<lambda>i. take ca (drop (i * ca) (data a)) @
                                              take cb (drop (i * cb) (data b)))
                                        [0..<prod_list (take d (shape a))])\<rparr>)"

text \<open>
  The detokenizer is an external capability as well: \<open>tokenizer.decode\<close> is taken as a
  function from the list of token ids to the text.
\<close>

record tokenizer =
  decode :: "int list \<Rightarrow> string"

text \<open>\<open>t[k].item()\<close> on a vector, with Python's index: a negative one counts from the end,
  one out of range raises.\<close>

definition index_item :: "real list \<Rightarrow> int \<Rightarrow> error + real" where
  "index_item xs k =
     (let n = int (length xs); j = (if k < 0 then n + k else k)
      in if 0 \<le> j \<and> j < n then Inr (xs ! nat j) else Inl IndexError)"

record gtl_state =
  output_so_far :: "int tensor option"
  last_var :: "int tensor option"
  logp :: real

text \<open>
  \<^verbatim>\<open>
  def get_text_from_logits(logits, tokenizer):
      output_so_far = None
      last = None
      logp = 0
      for i in range(logits.shape[0]):
          last = _greedy(logits[i, :])
          output_so_far = last if output_so_far is None else torch.cat((output_so_far, last), dim=0)
          logp += logits[i, :].log_softmax(-1)[last.item()].item()
      nll = -logp
      text = tokenizer.decode(output_so_far.tolist())
      text = text.replace('\n', ' ')
      return text, nll, output_so_far
  \<close>
  \<open>gtl_body\<close> is the loop body on the local variables that the loop assigns.
  \<open>logits[i, :]\<close> of a matrix is its slice \<open>i\<close>. The callers pass a matrix; a vector
  makes \<open>logits[i, :]\<close> raise, a scalar \<open>logits.shape[0]\<close>. On a tensor of rank 3 or
  more \<open>last.item()\<close> raises unless every axis after the first has size 1, a case that
  is not modelled. With no iteration \<open>output_so_far\<close> stays \<open>None\<close> and
  \<open>None.tolist()\<close> raises.
\<close>

definition gtl_body ::
  "(real list \<Rightarrow> nat) \<Rightarrow> real tensor \<Rightarrow> nat \<Rightarrow> gtl_state \<Rightarrow> error + gtl_state" where
  "gtl_body topk1 logits i st =
     (let row = \<lparr>shape = [shape logits ! 1], data = rows logits ! i\<rparr>
      in ebind (greedy topk1 row) (\<lambda>last.
         ebind (case output_so_far st of None \<Rightarrow> Inr last | Some out \<Rightarrow> cat 0 out last) (\<lambda>out.
         ebind (index_item (log_softmax_row (data row)) (hd (data last))) (\<lambda>lp.
           Inr (st\<lparr>last_var := Some last, output_so_far := Some out,
                     logp := logp st + lp\<rparr>)))))"

fun for_each :: "(nat \<Rightarrow> 's \<Rightarrow> error + 's) \<Rightarrow> nat list \<Rightarrow> 's \<Rightarrow> error + 's" where
  "for_each body [] s = Inr s"
| "for_each body (i # is) s =
     (case body i s of Inl e \<Rightarrow> Inl e | Inr s' \<Rightarrow> for_each body is s')"

definition gtl_loop :: "(real list \<Rightarrow> nat) \<Rightarrow> real tensor \<Rightarrow> error + gtl_state" where
  "gtl_loop topk1 logits =
     (if shape logits = [] then Inl IndexError
      else if shape logits ! 0 = 0
        then Inr \<lparr>output_so_far = None, last_var = None, logp = 0\<rparr>
      else if length (shape logits) = 1 then Inl IndexError
      else if length (shape logits) > 2 then Inl RuntimeError
      else for_each (gtl_body topk1 logits) [0..<shape logits ! 0]
             \<lparr>output_so_far = None, last_var = None, logp = 0\<rparr>)"

definition replace_newlines :: "string \<Rightarrow> string" where
  "replace_newlines text = map (\<lambda>c. if c = CHR 0x0A then CHR '' '' else c) text"

definition gtl_finish :: "tokenizer \<Rightarrow> gtl_state \<Rightarrow> error + (string \<times> real \<times> int tensor)" where
  "gtl_finish tokenizer st =
     (let nll = - logp st
      in case output_so_far st of
           None \<Rightarrow> Inl AttributeError
         | Some out \<Rightarrow> Inr (replace_newlines (decode tokenizer (data out)), nll, out))"

definition get_text_from_logits ::
  "(real list \<Rightarrow> nat) \<Rightarrow> real tensor \<Rightarrow> tokenizer \<Rightarrow> error + (string \<times> real \<times> int tensor)" where
  "get_text_from_logits topk1 logits tokenizer =
     ebind (gtl_loop topk1 logits) (gtl_finish tokenizer)"

subsection \<open>The same function on stored tensors\<close>

text \<open>
  What a second call sees depends on what the first call left in memory, so here the
  float tensors live in a store and \<open>logits\<close> is the address of one of them. The slices
  \<open>logits[i, :]\<close> are views: they read the stored tensor. \<open>log_softmax\<close> returns a new
  tensor, which takes the next free address, and \<open>[last.item()].item()\<close> reads it there.
  The long tensors \<open>last\<close> and \<open>output_so_far\<close> are new objects as well (\<open>topk\<close> and
  \<open>torch.cat\<close> allocate their results) and share nothing with a float tensor; they stay
  values. The function returns its result together with the store it leaves.
\<close>

type_synonym store = "real tensor list"

definition gtl_body_stored ::
  "(real list \<Rightarrow> nat) \<Rightarrow> nat \<Rightarrow> nat \<Rightarrow> gtl_state \<times> store \<Rightarrow> error + gtl_state \<times> store" where
  "gtl_body_stored topk1 a i sts =
     (let st = fst sts; s = snd sts;
          row = \<lparr>shape = [shape (s ! a) ! 1], data = rows (s ! a) ! i\<rparr>
      in ebind (greedy topk1 row) (\<lambda>last.
         ebind (case output_so_far st of None \<Rightarrow> Inr last | Some out \<Rightarrow> cat 0 out last) (\<lambda>out.
         let s' = s @ [\<lparr>shape = shape row, data = log_softmax_row (data row)\<rparr>]
         in ebind (index_item (data (s' ! length s)) (hd (data last))) (\<lambda>lp.
              Inr (st\<lparr>last_var := Some last, output_so_far := Some out,
                        logp := logp st + lp\<rparr>, s')))))"

definition gtl_loop_stored ::
  "(real list \<Rightarrow> nat) \<Rightarrow> store \<Rightarrow> nat \<Rightarrow> error + gtl_state \<times> store" where
  "gtl_loop_stored topk1 s a =
     (if shape (s ! a) = [] then Inl IndexError
      else if shape (s ! a) ! 0 = 0
        then Inr (\<lparr>output_so_far = None, last_var = None, logp = 0\<rparr>, s)
      else if length (shape (s ! a)) = 1 then Inl IndexError
      else if length (shape (s ! a)) > 2 then Inl RuntimeError
      else for_each (gtl_body_stored topk1 a) [0..<shape (s ! a) ! 0]
             (\<lparr>output_so_far = None, last_var = None, logp = 0\<rparr>, s))"

definition get_text_from_logits_stored ::
  "(real list \<Rightarrow> nat) \<Rightarrow> store \<Rightarrow> nat \<Rightarrow> tokenizer \<Rightarrow>
     error + (string \<times> real \<times> int tensor) \<times> store" where
  "get_text_from_logits_stored topk1 s a tokenizer =
     ebind (gtl_loop_stored topk1 s a)
       (\<lambda>sts. ebind (gtl_finish tokenizer (fst sts)) (\<lambda>r. Inr (r, snd sts)))"

section \<open>The external model\<close>

text \<open>
  The pretrained model is an external capability and a parameter of everything below:
  a forward pass that takes the cached key-value state (or \<open>None\<close>) and either token
  ids or a dense embedding tensor, and returns logits and a new cached state (or raises),
  and the embedding table that \<open>model.get_input_embeddings()\<close> returns.
\<close>

datatype model_input = InputIds "int tensor" | InputsEmbeds "real tensor"

record 'p model_outputs =
  logits :: "real tensor"
  past_key_values :: "'p option"

record 'p model =
  forward :: "'p option \<Rightarrow> model_input \<Rightarrow> error + 'p model_outputs"
  get_input_embeddings :: embedding

text \<open>
  \<open>t[:, -1, :]\<close>: the last position of axis 1. It raises on a tensor of rank below 3 and
  on an axis 1 of size 0.
\<close>

definition select_last :: "'a tensor \<Rightarrow> error + 'a tensor" where
  "select_last t =
     (if length (shape t) < 3 then Inl IndexError
      else let b = shape t ! 0; s = shape t ! 1; r = prod_list (drop 2 (shape t))
           in if s = 0 then Inl IndexError
              else Inr \<lparr>shape = b # drop 2 (shape t),
                        data = concat (map (\<lambda>i. take r (drop ((i * s + (s - 1)) * r) (data t)))
                                           [0..<b])\<rparr>)"

text \<open>\<open>for i in range(length)\<close> with a body that does not read \<open>i\<close>: the body runs
  \<open>nat length\<close> times, not at all for a length below 1. (The parameter \<open>length\<close> of the
  decoding functions is written \<open>len\<close> below.)\<close>

fun for_range :: "('s \<Rightarrow> error + 's) \<Rightarrow> nat \<Rightarrow> 's \<Rightarrow> error + 's" where
  "for_range body 0 s = Inr s"
| "for_range body (Suc n) s =
     (case body s of Inl e \<Rightarrow> Inl e | Inr s' \<Rightarrow> for_range body n s')"

section \<open>Soft (embedding-weighted) decoding\<close>

record 'p soft_state =
  past :: "'p option"
  inputs_embeds :: "real tensor option"
  logits_so_far :: "real tensor option"
  stdout :: "real list"

definition soft_init :: "'p soft_state" where
  "soft_init = \<lparr>past = None, inputs_embeds = None, logits_so_far = None, stdout = []\<rparr>"

text \<open>
  The part of the loop body that the three soft decoding functions share: the forward
  pass on the current embedded input, the last position divided by the temperature,
  appended to \<open>logits_so_far\<close>, and embedded again.
  \<^verbatim>\<open>
      model_outputs = model(past_key_values=past, inputs_embeds=inputs_embeds1)
      logits = model_outputs.logits
      past = model_outputs.past_key_values
      logits = logits[:, -1, :] / temperature
      logits = logits.unsqueeze(1)
      logits_so_far = logits if logits_so_far is None else torch.cat((logits_so_far, logits), dim=1)
      inputs_embeds1 = embed_inputs(model.get_input_embeddings(), logits, device=device)
  \<close>
  A forward pass with neither ids nor embeddings raises.
\<close>

definition soft_forward :: "'p model \<Rightarrow> real \<Rightarrow> string \<Rightarrow> 'p soft_state \<Rightarrow> error + 'p soft_state" where
  "soft_forward m temperature device st =
     (case inputs_embeds st of
        None \<Rightarrow> Inl ValueError
      | Some x \<Rightarrow>
          ebind (forward m (past st) (InputsEmbeds x)) (\<lambda>model_outputs.
          ebind (select_last (logits model_outputs)) (\<lambda>l.
          ebind (unsqueeze 1 (tdiv l temperature)) (\<lambda>l.
          ebind (case logits_so_far st of None \<Rightarrow> Inr l | Some sf \<Rightarrow> cat 1 sf l) (\<lambda>sf.
          (case embed_inputs (get_input_embeddings m) l device False of
             (printed, r) \<Rightarrow>
               ebind r (\<lambda>x'. Inr \<lparr>past = past_key_values model_outputs,
                                   inputs_embeds = Some x', logits_so_far = Some sf,
                                   stdout = stdout st @ printed\<rparr>)))))))"

text \<open>
  \<^verbatim>\<open>
  def decode_with_embeddings(model, length, input_one_hot1, temperature, device):
      past = None
      inputs_embeds1 = None
      logits_so_far = None
      for i in range(length):
          if past is None:
              inputs_embeds1 = embed_inputs(model.get_input_embeddings(),
                                            input_one_hot1.type(torch.FloatTensor) / temperature, device='cuda',
                                            print_entropy=True)
          ... the shared part ...
      return logits_so_far
  \<close>
  \<open>decode_with_one_hot\<close> of \<open>utils.py\<close> has the same text.
\<close>

definition soft_step ::
  "'p model \<Rightarrow> int tensor \<Rightarrow> real \<Rightarrow> string \<Rightarrow> 'p soft_state \<Rightarrow> error + 'p soft_state" where
  "soft_step m input_one_hot1 temperature device st =
     ebind (if past st = None
            then (case embed_inputs (get_input_embeddings m)
                         (tdiv (to_float input_one_hot1) temperature) ''cuda'' True of
                    (printed, r) \<Rightarrow>
                      ebind r (\<lambda>x. Inr (st\<lparr>inputs_embeds := Some x,
                                             stdout := stdout st @ printed\<rparr>)))
            else Inr st)
       (soft_forward m temperature device)"

definition decode_with_embeddings ::
  "'p model \<Rightarrow> int \<Rightarrow> int tensor \<Rightarrow> real \<Rightarrow> string \<Rightarrow> error + real tensor option" where
  "decode_with_embeddings m len input_one_hot1 temperature device =
     ebind (for_range (soft_step m input_one_hot1 temperature device) (nat len) soft_init)
       (\<lambda>st. Inr (logits_so_far st))"


text \<open>
  \<^verbatim>\<open>
  def decode_with_embedding(model, length, temperature, device, prompt_embedding):
      ...
      for i in range(length):
          if past is None:
              inputs_embeds = prompt_embedding
          ... the shared part ...
      return logits_so_far
  \<close>
\<close>

definition embedding_step ::
  "'p model \<Rightarrow> real \<Rightarrow> string \<Rightarrow> real tensor \<Rightarrow> 'p soft_state \<Rightarrow> error + 'p soft_state" where
  "embedding_step m temperature device prompt_embedding st =
     soft_forward m temperature device
       (if past st = None then st\<lparr>inputs_embeds := Some prompt_embedding\<rparr> else st)"

definition decode_with_embedding ::
  "'p model \<Rightarrow> int \<Rightarrow> real \<Rightarrow> string \<Rightarrow> real tensor \<Rightarrow> error + real tensor option" where
  "decode_with_embedding m len temperature device prompt_embedding =
     ebind (for_range (embedding_step m temperature device prompt_embedding) (nat len) soft_init)
       (\<lambda>st. Inr (logits_so_far st))"

section \<open>Arg-max decoding\<close>

record argmax_state =
  input_ids :: "int tensor"
  logits_acc :: "real tensor option"

text \<open>
  \<^verbatim>\<open>
  def decode_with_argmax(model, length, input_ids1, device):
      past = None
      logits_so_far = None
      for i in range(length):
          model_outputs = model(input_ids=input_ids1)
          logits = model_outputs.logits
          logits = logits[:, -1, :]
          logits = logits.unsqueeze(1)
          logits_so_far = logits if logits_so_far is None else torch.cat((logits_so_far, logits), dim=1)
          next_token = torch.argmax(logits)
          input_ids1 = torch.cat([input_ids1, next_token.unsqueeze(0).unsqueeze(0)], 1)
      return logits_so_far
  \<close>
  \<open>torch.argmax\<close> without \<open>dim\<close> is the index into the flattened tensor and raises
  on a tensor without elements. \<open>logits_acc\<close> is the variable \<open>logits_so_far\<close>.
\<close>

definition argmax :: "real tensor \<Rightarrow> error + int tensor" where
  "argmax t = (if data t = [] then Inl RuntimeError
               else Inr \<lparr>shape = [], data = [int (first_max_index (data t))]\<rparr>)"

definition argmax_step :: "'p model \<Rightarrow> argmax_state \<Rightarrow> error + argmax_state" where
  "argmax_step m st =
     ebind (forward m None (InputIds (input_ids st))) (\<lambda>model_outputs.
     ebind (select_last (logits model_outputs)) (\<lambda>l.
     ebind (unsqueeze 1 l) (\<lambda>l.
     ebind (case logits_acc st of None \<Rightarrow> Inr l | Some sf \<Rightarrow> cat 1 sf l) (\<lambda>sf.
     ebind (argmax l) (\<lambda>next_token.
     ebind (unsqueeze 0 next_token) (\<lambda>nt.
     ebind (unsqueeze 0 nt) (\<lambda>nt.
     ebind (cat 1 (input_ids st) nt) (\<lambda>ids.
       Inr \<lparr>input_ids = ids, logits_acc = Some sf\<rparr>))))))))"

definition decode_with_argmax ::
  "'p model \<Rightarrow> int \<Rightarrow> int tensor \<Rightarrow> string \<Rightarrow> error + real tensor option" where
  "decode_with_argmax m len input_ids1 device =
     ebind (for_range (argmax_step m) (nat len) \<lparr>input_ids = input_ids1, logits_acc = None\<rparr>)
       (\<lambda>st. Inr (logits_acc st))"

text \<open>
  The arg-max loop as the specification words it, for one prompt (a batch of one), on
  lists: every step runs the forward pass on the whole token-id sequence so far with no
  cached state, takes the logits of the last position, appends them to the logits so far,
  and appends their top-1 token to the token ids. After the given number of steps it
  returns the token ids and the logits collected.
\<close>

fun argmax_decoding_spec ::
  "'p model \<Rightarrow> nat \<Rightarrow> int list \<Rightarrow> real list list \<Rightarrow> error + (int list \<times> real list list)" where
  "argmax_decoding_spec m 0 toks acc = Inr (toks, acc)"
| "argmax_decoding_spec m (Suc n) toks acc =
     ebind (forward m None (InputIds \<lparr>shape = [1, length toks], data = toks\<rparr>))
       (\<lambda>out. let row = last (rows (logits out))
              in argmax_decoding_spec m n (toks @ [int (first_max_index row)]) (acc @ [row]))"

text \<open>The state of \<open>decode_with_argmax\<close> that holds these token ids and these logits.\<close>

definition argmax_state_of :: "nat \<Rightarrow> int list \<Rightarrow> real list list \<Rightarrow> argmax_state" where
  "argmax_state_of V toks acc =
     \<lparr>input_ids = \<lparr>shape = [1, length toks], data = toks\<rparr>,
      logits_acc = (if acc = [] then None
                    else Some \<lparr>shape = [1, length acc, V], data = concat acc\<rparr>)\<rparr>"


section \<open>A two-token model for concrete runs\<close>

text \<open>
  A vocabulary of two tokens with embeddings of one entry, and a forward pass that scores
  token 1 above token 0 at every position and always returns a cached state.
\<close>

definition toy_embedding :: embedding where
  "toy_embedding = \<lparr>weight = \<lparr>shape = [2, 1], data = [1, 2]\<rparr>\<rparr>"

definition toy_forward :: "unit option \<Rightarrow> model_input \<Rightarrow> error + unit model_outputs" where
  "toy_forward p x =
     (case x of
        InputIds ids \<Rightarrow>
          if length (shape ids) = 2
          then Inr \<lparr>logits = \<lparr>shape = shape ids @ [2],
                               data = concat (replicate (prod_list (shape ids)) [0, 1])\<rparr>,
                    past_key_values = Some ()\<rparr>
          else Inl RuntimeError
      | InputsEmbeds x \<Rightarrow>
          if length (shape x) = 3 \<and> shape x ! 2 = 1
          then Inr \<lparr>logits = \<lparr>shape = butlast (shape x) @ [2],
                               data = concat (replicate (prod_list (butlast (shape x))) [0, 1])\<rparr>,
                    past_key_values = Some ()\<rparr>
          else Inl RuntimeError)"

definition toy_model :: "unit model" where
  "toy_model = \<lparr>forward = toy_forward, get_input_embeddings = toy_embedding\<rparr>"

text \<open>A detokenizer that writes token 0 as a newline and every other token as \<open>a\<close>.\<close>

definition toy_tokenizer :: tokenizer where
  "toy_tokenizer = \<lparr>decode = map (\<lambda>t. if t = 0 then CHR 0x0A else CHR ''a'')\<rparr>"

text \<open>
  A top-1 choice that does not take the first of equal largest elements: it takes the
  element two places after the first largest one when that is as large.
\<close>

definition tie_topk1 :: "real list \<Rightarrow> nat" where
  "tie_topk1 xs =
     (let j = first_max_index xs
      in if j + 2 < length xs \<and> xs ! (j + 2) = xs ! j then j + 2 else j)"

text \<open>
  A model that shows what it was given: its logits are its input embeddings, over a
  vocabulary of two tokens whose embedding table is the identity matrix.
\<close>

definition echo_embedding :: embedding where
  "echo_embedding = \<lparr>weight = \<lparr>shape = [2, 2], data = [1, 0, 0, 1]\<rparr>\<rparr>"

definition echo_forward :: "unit option \<Rightarrow> model_input \<Rightarrow> error + unit model_outputs" where
  "echo_forward p x =
     (case x of
        InputIds ids \<Rightarrow> Inl ValueError
      | InputsEmbeds t \<Rightarrow> Inr \<lparr>logits = t, past_key_values = Some ()\<rparr>)"

definition echo_model :: "unit model" where
  "echo_model = \<lparr>forward = echo_forward, get_input_embeddings = echo_embedding\<rparr>"

section \<open>Auxiliary facts about tensors\<close>

lemma one_hot_promote_shape:
  "shape (one_hot_promote t) = replicate (2 - length (shape t)) 1 @ shape t"
proof (induction t rule: one_hot_promote.induct)
  case (1 t)
  show ?case
  proof (cases "length (shape t) < 2")
    case True
    have "shape (one_hot_promote t) = shape (one_hot_promote (unsqueeze_at 0 t))"
      using True by (subst one_hot_promote.simps) simp
    also have "\<dots> = replicate (2 - length (shape (unsqueeze_at 0 t))) 1 @ shape (unsqueeze_at 0 t)"
      using 1 True by simp
    also have "\<dots> = replicate (2 - length (shape t)) 1 @ shape t"
      using True by (simp add: unsqueeze_at_def replicate_append_same Suc_diff_Suc flip: replicate_Suc)
    finally show ?thesis .
  next
    case False
    then show ?thesis by (subst one_hot_promote.simps) simp
  qed
qed

lemma one_hot_promote_data: "data (one_hot_promote t) = data t"
proof (induction t rule: one_hot_promote.induct)
  case (1 t)
  show ?case
  proof (cases "length (shape t) < 2")
    case True
    then show ?thesis using 1 by (subst one_hot_promote.simps) (simp add: unsqueeze_at_def)
  next
    case False
    then show ?thesis by (subst one_hot_promote.simps) simp
  qed
qed

lemma scatter_loop_append:
  "scatter_loop tgt v (ps @ qs) xs = ebind (scatter_loop tgt v ps xs) (scatter_loop tgt v qs)"
  by (induction ps arbitrary: xs) (auto simp: ebind_def split: sum.splits)

lemma offset_unique:
  fixes d :: nat
  assumes "k < d" "k' < d" "p * d + k = m * d + k'"
  shows "p = m \<and> k = k'"
proof -
  have a: "(p * d + k) div d = p" using assms(1) by simp
  have b: "(m * d + k') div d = m" using assms(2) by simp
  have "p = m" using a b assms(3) by metis
  then show ?thesis using assms(3) by simp
qed

lemma offset_bound:
  fixes d :: nat
  assumes "p < n" "k < d"
  shows "p * d + k < n * d"
proof -
  have "p * d + k < p * d + d" using assms(2) by simp
  also have "\<dots> = Suc p * d" by simp
  also have "\<dots> \<le> n * d" using assms(1) by (intro mult_le_mono1) simp
  finally show ?thesis .
qed

lemma scatter_loop_upto:
  assumes "m \<le> n"
    and "\<forall>p<m. 0 \<le> idx ! p \<and> idx ! p < int d"
    and "\<forall>p<m. tgt p = Inr (p * d + nat (idx ! p))"
  shows "\<exists>ys. scatter_loop tgt 1 [0..<m] (replicate (n * d) 0) = Inr ys \<and> length ys = n * d \<and>
           (\<forall>p<n. \<forall>k<d. ys ! (p * d + k) = (if p < m \<and> int k = idx ! p then 1 else 0))"
  using assms
proof (induction m)
  case 0
  have "\<forall>p<n. \<forall>k<d. replicate (n * d) (0::int) ! (p * d + k) = 0"
    using offset_bound by simp
  then show ?case by simp
next
  case (Suc m)
  then obtain ys where ys: "scatter_loop tgt 1 [0..<m] (replicate (n * d) 0) = Inr ys"
    "length ys = n * d"
    "\<forall>p<n. \<forall>k<d. ys ! (p * d + k) = (if p < m \<and> int k = idx ! p then 1 else 0)"
    by auto
  let ?x = "idx ! m"
  have x: "0 \<le> ?x" "?x < int d" using Suc.prems(2) by auto
  then have xd: "nat ?x < d" by simp
  have tm: "tgt m = Inr (m * d + nat ?x)" using Suc.prems(3) by simp
  let ?zs = "ys[m * d + nat ?x := 1]"
  have run: "scatter_loop tgt 1 [0..<Suc m] (replicate (n * d) 0) = Inr ?zs"
    using ys(1) tm by (simp add: scatter_loop_append ebind_def)
  have pt: "?zs ! (p * d + k) = (if p < Suc m \<and> int k = idx ! p then 1 else 0)"
    if "p < n" "k < d" for p k
  proof (cases "p * d + k = m * d + nat ?x")
    case True
    then have "p = m \<and> k = nat ?x" using offset_unique[OF that(2) xd] by simp
    moreover have "m * d + nat ?x < length ys"
      using ys(2) offset_bound[of m n "nat ?x" d] Suc.prems(1) xd by simp
    ultimately show ?thesis using x by simp
  next
    case False
    then have ne: "\<not> (p = m \<and> int k = ?x)" by auto
    have "?zs ! (p * d + k) = ys ! (p * d + k)" using False by simp
    also have "\<dots> = (if p < m \<and> int k = idx ! p then 1 else 0)" using ys(3) that by simp
    also have "\<dots> = (if p < Suc m \<and> int k = idx ! p then 1 else 0)"
      using ne by (auto simp: less_Suc_eq)
    finally show ?thesis .
  qed
  show ?case using run ys(2) pt by simp
qed

lemma scatter_target_one_hot:
  "scatter_target [a, b, d] [a, b, 1] idx p =
     (if 0 \<le> idx ! p \<and> idx ! p < int d then Inr (p * d + nat (idx ! p)) else Inl RuntimeError)"
  by (simp add: scatter_target_def Let_def)

lemma short_shape_cases:
  assumes "length (sh :: nat list) \<le> 2"
  shows "sh = [] \<or> (\<exists>x. sh = [x]) \<or> (\<exists>x y. sh = [x, y])"
proof (cases sh)
  case Nil then show ?thesis by simp
next
  case (Cons x xs)
  note c1 = Cons
  show ?thesis
  proof (cases xs)
    case Nil then show ?thesis using c1 by simp
  next
    case (Cons y ys)
    then have "ys = []" using assms c1 by simp
    then show ?thesis using c1 Cons by simp
  qed
qed

lemma one_hot_promote_rank2:
  assumes "well_shaped t" "length (shape t) \<le> 2"
  shows "\<exists>a b. shape (one_hot_promote t) = [a, b] \<and> a * b = length (data t)"
proof -
  have len: "length (data t) = prod_list (shape t)" using assms(1) by (simp add: well_shaped_def)
  have ps: "shape (one_hot_promote t) = replicate (2 - length (shape t)) 1 @ shape t"
    by (rule one_hot_promote_shape)
  from short_shape_cases[OF assms(2)] show ?thesis
  proof (elim disjE exE)
    assume e: "shape t = []"
    have "replicate (2 - length ([]::nat list)) (1::nat) @ [] = [1, 1]" by (simp add: numeral_2_eq_2)
    then have "shape (one_hot_promote t) = [1, 1]" using ps e by simp
    moreover have "1 * 1 = length (data t)" using len e by simp
    ultimately show ?thesis by blast
  next
    fix x assume e: "shape t = [x]"
    have "shape (one_hot_promote t) = [1, x]" using ps e by simp
    moreover have "1 * x = length (data t)" using len e by simp
    ultimately show ?thesis by blast
  next
    fix x y assume e: "shape t = [x, y]"
    have "shape (one_hot_promote t) = [x, y]" using ps e by simp
    moreover have "x * y = length (data t)" using len e by simp
    ultimately show ?thesis by blast
  qed
qed

lemma scatter_2_run:
  assumes "shape self = [a, b, d]" and "shape index = [a, b, 1]" and "a * b \<noteq> 0"
    and "scatter_loop (scatter_target [a, b, d] [a, b, 1] (data index)) v [0..<a * b] (data self) = Inr ys"
  shows "scatter_2 self index v = Inr (self\<lparr>data := ys\<rparr>)"
  using assms by (simp add: scatter_2_def ebind_def)

lemma one_hot_entries:
  assumes "well_shaped t" and "length (shape t) \<le> 2" and "0 \<le> d"
    and "\<forall>x\<in>set (data t). 0 \<le> x \<and> x < d"
  shows "\<exists>r. one_hot t d = Inr r \<and>
           shape r = replicate (2 - length (shape t)) 1 @ shape t @ [nat d] \<and>
           length (data r) = length (data t) * nat d \<and>
           (\<forall>p<length (data t). \<forall>k<nat d.
              data r ! (p * nat d + k) = (if int k = data t ! p then 1 else 0))"
proof -
  let ?t = "one_hot_promote t"
  let ?n = "length (data t)"
  from one_hot_promote_rank2[OF assms(1,2)]
  obtain a b where ab: "shape ?t = [a, b]" and abn: "a * b = ?n" by blast
  have sh: "replicate (2 - length (shape t)) 1 @ shape t = [a, b]"
    using ab one_hot_promote_shape[of t] by simp
  let ?self = "zeros [a, b, nat d]"
  let ?index = "unsqueeze_at (length (shape ?t)) ?t"
  have ish: "shape ?index = [a, b, 1]"
    using ab by (simp add: unsqueeze_at_def)
  have idt: "data ?index = data t"
    by (simp add: unsqueeze_at_def one_hot_promote_data)
  have oh: "one_hot t d = scatter_2 ?self ?index 1"
    using assms(3) ab by (simp add: one_hot_def Let_def)
  have pi: "prod_list (shape ?index) = ?n"
    using ish abn by simp
  have ssh: "shape ?self = [a, b, nat d]" and sdt: "data ?self = replicate (?n * nat d) 0"
    using abn by (simp_all add: zeros_def)
  show ?thesis
  proof (cases "?n = 0")
    case True
    have "scatter_2 ?self ?index 1 = Inr ?self"
      using pi True by (simp add: scatter_2_def)
    then have r: "one_hot t d = Inr ?self" using oh by simp
    have "shape ?self = replicate (2 - length (shape t)) 1 @ shape t @ [nat d]"
      using ssh sh by (simp flip: append_assoc)
    moreover have "length (data ?self) = ?n * nat d" using sdt by simp
    ultimately show ?thesis using r True by simp
  next
    case False
    have rng: "\<forall>p<?n. 0 \<le> data t ! p \<and> data t ! p < int (nat d)"
      using assms(3,4) by simp
    let ?tgt = "scatter_target [a, b, nat d] [a, b, 1] (data t)"
    have tgt: "\<forall>p<?n. ?tgt p = Inr (p * nat d + nat (data t ! p))"
    proof (intro allI impI)
      fix p assume "p < ?n"
      then have "0 \<le> data t ! p \<and> data t ! p < int (nat d)" using rng by blast
      then show "?tgt p = Inr (p * nat d + nat (data t ! p))"
        by (simp only: scatter_target_one_hot simp_thms if_True)
    qed
    from scatter_loop_upto[OF le_refl rng tgt]
    obtain ys where ys: "scatter_loop ?tgt 1 [0..<?n] (replicate (?n * nat d) 0) = Inr ys"
      and yl: "length ys = ?n * nat d"
      and yp: "\<forall>p<?n. \<forall>k<nat d. ys ! (p * nat d + k) = (if p < ?n \<and> int k = data t ! p then 1 else 0)"
      by blast
    have "a * b \<noteq> 0" using False abn by simp
    moreover have "scatter_loop (scatter_target [a, b, nat d] [a, b, 1] (data ?index)) 1
                     [0..<a * b] (data ?self) = Inr ys"
      unfolding idt sdt abn by (rule ys)
    ultimately have "scatter_2 ?self ?index 1 = Inr (?self\<lparr>data := ys\<rparr>)"
      using ssh ish by (intro scatter_2_run)
    then have r: "one_hot t d = Inr (?self\<lparr>data := ys\<rparr>)" using oh by simp
    have "shape (?self\<lparr>data := ys\<rparr>) = replicate (2 - length (shape t)) 1 @ shape t @ [nat d]"
      using ssh sh by (simp flip: append_assoc)
    moreover have "data (?self\<lparr>data := ys\<rparr>) = ys" by simp
    ultimately show ?thesis using r yl yp by simp
  qed
qed

lemma take_drop_concat_nth:
  assumes "\<forall>xs\<in>set xss. length xs = v" and "i < length xss"
  shows "take v (drop (i * v) (concat xss)) = xss ! i"
  using assms
proof (induction xss arbitrary: i)
  case Nil
  then show ?case by simp
next
  case (Cons xs xss)
  show ?case
  proof (cases i)
    case 0
    then show ?thesis using Cons.prems by simp
  next
    case (Suc j)
    then have "take v (drop (j * v) (concat xss)) = xss ! j"
      using Cons by simp
    then show ?thesis using Suc Cons.prems by simp
  qed
qed

lemma rows_concat:
  assumes "\<forall>xs\<in>set xss. length xs = last_axis sh" and "length xss = prod_list (butlast sh)"
  shows "rows \<lparr>shape = sh, data = concat xss\<rparr> = xss"
proof (rule nth_equalityI)
  show "length (rows \<lparr>shape = sh, data = concat xss\<rparr>) = length xss"
    using assms(2) by (simp add: rows_def)
next
  fix i assume "i < length (rows \<lparr>shape = sh, data = concat xss\<rparr>)"
  then have i: "i < length xss" using assms(2) by (simp add: rows_def)
  then have "i < prod_list (butlast sh)" using assms(2) by simp
  then have "rows \<lparr>shape = sh, data = concat xss\<rparr> ! i
           = take (last_axis sh) (drop (i * last_axis sh) (concat xss))"
    by (simp add: rows_def)
  also have "\<dots> = xss ! i" using take_drop_concat_nth[OF assms(1) i] .
  finally show "rows \<lparr>shape = sh, data = concat xss\<rparr> ! i = xss ! i" .
qed

lemma prod_butlast_last:
  "sh \<noteq> [] \<Longrightarrow> prod_list (butlast sh) * last sh = prod_list (sh :: nat list)"
  by (induction sh) auto

lemma prod_butlast_last_axis: "prod_list (butlast sh) * last_axis sh = prod_list (sh :: nat list)"
  by (cases "sh = []") (simp_all add: last_axis_def prod_butlast_last)

lemma length_rows: "length (rows t) = prod_list (butlast (shape t))"
  by (simp add: rows_def)

lemma row_length:
  assumes "well_shaped t" and "r \<in> set (rows t)"
  shows "length r = last_axis (shape t)"
proof -
  let ?v = "last_axis (shape t)"
  let ?n = "prod_list (butlast (shape t))"
  from assms(2) obtain i where i: "i < ?n" and r: "r = take ?v (drop (i * ?v) (data t))"
    by (auto simp: rows_def)
  have "length (data t) = ?n * ?v"
    using assms(1) by (simp add: well_shaped_def prod_butlast_last_axis)
  moreover have "Suc i * ?v \<le> ?n * ?v" using i by (intro mult_le_mono1) simp
  ultimately have "i * ?v + ?v \<le> length (data t)" by simp
  then show ?thesis using r by simp
qed

lemma softmax_row_length: "length (softmax_row xs) = length xs"
  by (simp add: softmax_row_def)

lemma rows_softmax:
  assumes "well_shaped t"
  shows "rows (softmax t) = map softmax_row (rows t)"
proof -
  have "softmax t = \<lparr>shape = shape t, data = concat (map softmax_row (rows t))\<rparr>"
    by (simp add: softmax_def)
  moreover have "\<forall>xs\<in>set (map softmax_row (rows t)). length xs = last_axis (shape t)"
    using row_length[OF assms] by (auto simp: softmax_row_length)
  moreover have "length (map softmax_row (rows t)) = prod_list (butlast (shape t))"
    by (simp add: length_rows)
  ultimately show ?thesis using rows_concat by metis
qed

lemma sum_exp_pos: "xs \<noteq> [] \<Longrightarrow> 0 < sum_list (map exp (xs :: real list))"
proof (induction xs)
  case Nil then show ?case by simp
next
  case (Cons x xs)
  have "0 \<le> sum_list (map exp xs)" by (rule sum_list_nonneg) auto
  moreover have "0 < exp x" by simp
  ultimately have "0 < exp x + sum_list (map exp xs)" by (rule add_pos_nonneg[rotated])
  then show ?case by simp
qed

lemma sum_list_div_const: "sum_list (map (\<lambda>x. f x / c) xs) = sum_list (map f xs) / (c :: real)"
  by (induction xs) (simp_all add: add_divide_distrib)

lemma softmax_row_sums_to_one:
  assumes "xs \<noteq> []"
  shows "sum_list (softmax_row xs) = 1"
proof -
  have "sum_list (softmax_row xs) = sum_list (map exp xs) / sum_list (map exp xs)"
    unfolding softmax_row_def by (rule sum_list_div_const)
  then show ?thesis using sum_exp_pos[OF assms] by simp
qed

lemma softmax_row_pos:
  assumes "p \<in> set (softmax_row xs)"
  shows "0 < p"
proof -
  from assms obtain x where "x \<in> set xs" and p: "p = exp x / sum_list (map exp xs)"
    by (auto simp: softmax_row_def)
  then have "xs \<noteq> []" by auto
  then show ?thesis using p sum_exp_pos by simp
qed

lemma weighted_row_sum_Cons:
  "weighted_row_sum e (p # ps) (r # rs) = map2 (+) (map ((*) p) r) (weighted_row_sum e ps rs)"
  by (simp add: weighted_row_sum_def)

lemma weighted_row_sum_nth:
  assumes "\<forall>r\<in>set rs. length r = e"
  shows "length (weighted_row_sum e ps rs) = e \<and>
         (\<forall>j<e. weighted_row_sum e ps rs ! j = sum_list (map2 (\<lambda>p r. p * r ! j) ps rs))"
  using assms
proof (induction ps arbitrary: rs)
  case Nil
  then show ?case by (simp add: weighted_row_sum_def)
next
  case (Cons p ps)
  show ?case
  proof (cases rs)
    case Nil
    then show ?thesis by (simp add: weighted_row_sum_def)
  next
    case (Cons r rs')
    then have r: "length r = e" and rs': "\<forall>r\<in>set rs'. length r = e"
      using Cons.prems by simp_all
    from Cons.IH[OF rs'] have
      l: "length (weighted_row_sum e ps rs') = e" and
      n: "\<forall>j<e. weighted_row_sum e ps rs' ! j = sum_list (map2 (\<lambda>p r. p * r ! j) ps rs')"
      by simp_all
    show ?thesis
      unfolding Cons weighted_row_sum_Cons using r l n by simp
  qed
qed

lemma matrix_row_nth:
  assumes "length xs = V * e" and "k < V" and "j < e"
  shows "take e (drop (k * e) xs) ! j = xs ! (k * e + j)"
proof -
  have "k * e \<le> V * e" using assms(2) by (intro mult_le_mono1) simp
  then have "k * e \<le> length xs" using assms(1) by simp
  then show ?thesis using assms(3) by simp
qed

lemma map2_map_upt:
  "map2 f ps (map g [0..<V]) = map (\<lambda>xk. f (fst xk) (g (snd xk))) (zip ps [0..<V])"
  by (simp add: zip_map2 case_prod_unfold)

lemma matmul_row_weighted_sum:
  assumes "shape w = [V, e]" and "well_shaped w" and "length p = V"
  shows "map (\<lambda>j. dot p (column w j)) [0..<e] = weighted_row_sum e p (rows w)"
proof -
  have len: "length (data w) = V * e" using assms(1,2) by (simp add: well_shaped_def)
  have rw: "rows w = map (\<lambda>k. take e (drop (k * e) (data w))) [0..<V]"
    using assms(1) by (simp add: rows_def last_axis_def)
  have rl: "\<forall>r\<in>set (rows w). length r = e"
    using row_length[OF assms(2)] assms(1) by (simp add: last_axis_def)
  note ws = weighted_row_sum_nth[OF rl, of p]
  have cw: "column w j = map (\<lambda>k. data w ! (k * e + j)) [0..<V]" for j
    using assms(1) by (simp add: column_def)
  show ?thesis
  proof (rule nth_equalityI)
    show "length (map (\<lambda>j. dot p (column w j)) [0..<e]) = length (weighted_row_sum e p (rows w))"
      using ws by simp
  next
    fix j assume "j < length (map (\<lambda>j. dot p (column w j)) [0..<e])"
    then have j: "j < e" by simp
    have eq: "map (\<lambda>xk. fst xk * take e (drop (snd xk * e) (data w)) ! j) (zip p [0..<V])
            = map (\<lambda>xk. fst xk * data w ! (snd xk * e + j)) (zip p [0..<V])"
    proof (rule map_cong[OF refl])
      fix xk assume "xk \<in> set (zip p [0..<V])"
      then have "(fst xk, snd xk) \<in> set (zip p [0..<V])" by simp
      then have "snd xk \<in> set [0..<V]" by (rule set_zip_rightD)
      then have "snd xk < V" by simp
      then show "fst xk * take e (drop (snd xk * e) (data w)) ! j = fst xk * data w ! (snd xk * e + j)"
        using matrix_row_nth[OF len _ j] by simp
    qed
    have "weighted_row_sum e p (rows w) ! j = sum_list (map2 (\<lambda>p r. p * r ! j) p (rows w))"
      using ws j by simp
    also have "\<dots> = sum_list (map (\<lambda>xk. fst xk * take e (drop (snd xk * e) (data w)) ! j) (zip p [0..<V]))"
      unfolding rw map2_map_upt ..
    also have "\<dots> = sum_list (map (\<lambda>xk. fst xk * data w ! (snd xk * e + j)) (zip p [0..<V]))"
      unfolding eq ..
    also have "\<dots> = dot p (column w j)"
      unfolding dot_def cw map2_map_upt ..
    finally show "map (\<lambda>j. dot p (column w j)) [0..<e] ! j = weighted_row_sum e p (rows w) ! j"
      using j by simp
  qed
qed

lemma matmul_rows:
  assumes "shape w = [V, e]" and "shape a \<noteq> []" and "last (shape a) = V"
  shows "\<exists>r. matmul a w = Inr r \<and> shape r = butlast (shape a) @ [e] \<and>
             rows r = map (\<lambda>p. map (\<lambda>j. dot p (column w j)) [0..<e]) (rows a)"
proof -
  let ?xss = "map (\<lambda>p. map (\<lambda>j. dot p (column w j)) [0..<e]) (rows a)"
  let ?r = "\<lparr>shape = butlast (shape a) @ [e], data = concat ?xss\<rparr>"
  have m: "matmul a w = Inr ?r" using assms by (simp add: matmul_def)
  have "\<forall>xs\<in>set ?xss. length xs = last_axis (butlast (shape a) @ [e])"
    by (auto simp: last_axis_def)
  moreover have "length ?xss = prod_list (butlast (butlast (shape a) @ [e]))"
    by (simp add: length_rows)
  ultimately have "rows ?r = ?xss" by (rule rows_concat)
  then show ?thesis using m by simp
qed

section \<open>One-hot construction: the result\<close>

text \<open>
  Claim C3, as the code has it. \<open>one_hot\<close> first brings a token-id tensor of rank below 2
  to rank 2 by axes of size 1 in front, so the result always has rank 3. For a well-shaped
  tensor of rank at most 2 whose ids all lie in \<open>[0, d)\<close> the call succeeds, the shape of
  the result is the shape brought to rank 2 followed by \<open>d\<close> (for a tensor of rank 2: its
  own shape with one more axis of size \<open>d\<close> behind), and for every position \<open>p\<close> the
  \<open>d\<close> entries of the result at \<open>p\<close> are 1 at the token id and 0 everywhere else.
  On \<open>[[1, 2, 3]]\<close> with vocabulary size 5 the result is the 1 x 3 x 5 tensor with ones at
  (0,0,1), (0,1,2) and (0,2,3).
\<close>

theorem one_hot_rank_two:
  assumes "well_shaped t" and "length (shape t) \<le> 2" and "0 \<le> d"
    and "\<forall>x\<in>set (data t). 0 \<le> x \<and> x < d"
  shows "(\<exists>r. one_hot t d = Inr r \<and>
           shape r = replicate (2 - length (shape t)) 1 @ shape t @ [nat d] \<and>
           length (data r) = length (data t) * nat d \<and>
           (\<forall>p<length (data t). \<forall>k<nat d.
              data r ! (p * nat d + k) = (if int k = data t ! p then 1 else 0)))
       \<and> one_hot \<lparr>shape = [1, 3], data = [1, 2, 3]\<rparr> 5 =
           Inr \<lparr>shape = [1, 3, 5], data = [0,1,0,0,0, 0,0,1,0,0, 0,0,0,1,0]\<rparr>"
proof
  show "\<exists>r. one_hot t d = Inr r \<and>
           shape r = replicate (2 - length (shape t)) 1 @ shape t @ [nat d] \<and>
           length (data r) = length (data t) * nat d \<and>
           (\<forall>p<length (data t). \<forall>k<nat d.
              data r ! (p * nat d + k) = (if int k = data t ! p then 1 else 0))"
    using assms by (rule one_hot_entries)
  show "one_hot \<lparr>shape = [1, 3], data = [1, 2, 3]\<rparr> 5 =
           Inr \<lparr>shape = [1, 3, 5], data = [0,1,0,0,0, 0,0,1,0,0, 0,0,0,1,0]\<rparr>"
    by code_simp
qed

theorem one_hot_rank_two_witness:
  "\<exists>r. one_hot \<lparr>shape = [2, 2], data = [1, 2, 0, 1]\<rparr> 3 = Inr r \<and> shape r = [2, 2, 3] \<and>
        length (data r) = 12 \<and> data r ! 1 = 1 \<and> data r ! 5 = 1 \<and> data r ! 6 = 1 \<and>
        data r ! 0 = 0 \<and> data r ! 10 = 1"
proof -
  let ?t = "\<lparr>shape = [2, 2], data = [1, 2, 0, 1::int]\<rparr>"
  have h1: "well_shaped ?t" by (simp add: well_shaped_def)
  have h2: "length (shape ?t) \<le> 2" by simp
  have h3: "(0::int) \<le> 3" by simp
  have h4: "\<forall>x\<in>set (data ?t). 0 \<le> x \<and> x < 3" by simp
  from one_hot_rank_two[OF h1 h2 h3 h4] obtain r where
    r: "one_hot ?t 3 = Inr r" "shape r = [2, 2, 3]" "length (data r) = 12"
    and pt: "\<forall>p<4. \<forall>k<3. data r ! (p * 3 + k) = (if int k = data ?t ! p then 1 else 0)"
    by auto
  have "data r ! 1 = 1" using pt[rule_format, of 0 1] by simp
  moreover have "data r ! 5 = 1" using pt[rule_format, of 1 2] by simp
  moreover have "data r ! 6 = 1" using pt[rule_format, of 2 0] by simp
  moreover have "data r ! 0 = 0" using pt[rule_format, of 0 0] by simp
  moreover have "data r ! 10 = 1" using pt[rule_format, of 3 1] by simp
  ultimately show ?thesis using r by simp
qed

text \<open>
  The claim as the specification words it (any leading shape, exactly one more axis)
  fails on a vector of token ids: the result of \<open>[1, 2, 3]\<close> has shape (1, 3, 5), not
  (3, 5). A tensor of rank 3 makes \<open>scatter_\<close> raise.
\<close>

theorem one_hot_shape_counterexample:
  "one_hot \<lparr>shape = [3], data = [1, 2, 3]\<rparr> 5 =
     Inr \<lparr>shape = [1, 3, 5], data = [0,1,0,0,0, 0,0,1,0,0, 0,0,0,1,0]\<rparr>
   \<and> [1, 3, 5] \<noteq> [3] @ [5::nat]
   \<and> one_hot \<lparr>shape = [1, 1, 3], data = [1, 2, 3]\<rparr> 5 = Inl RuntimeError"
  by code_simp

section \<open>Embedding projection: the result\<close>

text \<open>
  Claim C2. For a well-shaped logits tensor whose last axis is the (non-empty) vocabulary
  of the embedding table, \<open>embed_inputs\<close> returns \<open>matmul (softmax logits) weight\<close>:
  the softmax is taken slice by slice along the last axis, every softmax slice sums to 1,
  and slice \<open>i\<close> of the result is the sum of the table's rows weighted by the softmax of
  slice \<open>i\<close> of the logits.
\<close>

theorem embed_inputs_weighted_sum:
  assumes "well_shaped lg" and "shape lg \<noteq> []" and "last (shape lg) = V" and "0 < V"
    and "shape (weight E) = [V, e]" and "well_shaped (weight E)"
  shows "\<exists>r. snd (embed_inputs E lg device print_entropy) = Inr r \<and>
             matmul (softmax lg) (weight E) = Inr r \<and>
             rows (softmax lg) = map softmax_row (rows lg) \<and>
             shape r = butlast (shape lg) @ [e] \<and>
             length (rows r) = length (rows lg) \<and>
             (\<forall>i<length (rows lg).
                sum_list (softmax_row (rows lg ! i)) = 1 \<and>
                rows r ! i = weighted_row_sum e (softmax_row (rows lg ! i)) (rows (weight E)))"
proof -
  have rs: "rows (softmax lg) = map softmax_row (rows lg)" using assms(1) by (rule rows_softmax)
  have sh: "shape (softmax lg) = shape lg" by (simp add: softmax_def)
  from matmul_rows[OF assms(5), of "softmax lg"] assms(2,3) sh obtain r where
    r: "matmul (softmax lg) (weight E) = Inr r" "shape r = butlast (shape lg) @ [e]"
       "rows r = map (\<lambda>p. map (\<lambda>j. dot p (column (weight E) j)) [0..<e]) (rows (softmax lg))"
    by auto
  have e: "snd (embed_inputs E lg device print_entropy) = Inr r"
    using r(1) by (simp add: embed_inputs_def Let_def)
  have pt: "sum_list (softmax_row (rows lg ! i)) = 1 \<and>
            rows r ! i = weighted_row_sum e (softmax_row (rows lg ! i)) (rows (weight E))"
    if i: "i < length (rows lg)" for i
  proof -
    have "rows lg ! i \<in> set (rows lg)" using i by simp
    then have li: "length (rows lg ! i) = V"
      using row_length[OF assms(1)] assms(2,3) by (simp add: last_axis_def)
    then have "rows lg ! i \<noteq> []" using assms(4) by auto
    then have one: "sum_list (softmax_row (rows lg ! i)) = 1" by (rule softmax_row_sums_to_one)
    have "rows r ! i = map (\<lambda>j. dot (softmax_row (rows lg ! i)) (column (weight E) j)) [0..<e]"
      using r(3) rs i by simp
    also have "\<dots> = weighted_row_sum e (softmax_row (rows lg ! i)) (rows (weight E))"
      using assms(5,6) li by (intro matmul_row_weighted_sum) (simp_all add: softmax_row_length)
    finally show ?thesis using one by simp
  qed
  have "length (rows r) = length (rows lg)" using r(3) rs by simp
  then show ?thesis using e r(1,2) rs pt by blast
qed

theorem embed_inputs_weighted_sum_witness:
  "\<exists>r. snd (embed_inputs toy_embedding \<lparr>shape = [1, 2], data = [0, 0]\<rparr> ''cpu'' False) = Inr r \<and>
       shape r = [1, 1] \<and> rows r ! 0 = [3 / 2] \<and> sum_list (softmax_row [0, 0]) = 1"
proof -
  let ?lg = "\<lparr>shape = [1, 2], data = [0, 0::real]\<rparr>"
  have h1: "well_shaped ?lg" by (simp add: well_shaped_def)
  have h2: "shape ?lg \<noteq> []" by simp
  have h3: "last (shape ?lg) = 2" by simp
  have h4: "(0::nat) < 2" by simp
  have h5: "shape (weight toy_embedding) = [2, 1]" by (simp add: toy_embedding_def)
  have h6: "well_shaped (weight toy_embedding)" by (simp add: toy_embedding_def well_shaped_def)
  have rl: "rows ?lg = [[0, 0]]" by (simp add: rows_def last_axis_def)
  have rw: "rows (weight toy_embedding) = [[1], [2]]"
    by (simp add: rows_def last_axis_def toy_embedding_def upt_conv_Cons)
  have sm: "softmax_row [0, 0] = [1 / 2, 1 / 2]" by (simp add: softmax_row_def)
  from embed_inputs_weighted_sum[OF h1 h2 h3 h4 h5 h6, of "''cpu''" False] obtain r where
    r: "snd (embed_inputs toy_embedding ?lg ''cpu'' False) = Inr r" "shape r = [1, 1]"
    and pt: "\<forall>i<length (rows ?lg). sum_list (softmax_row (rows ?lg ! i)) = 1 \<and>
          rows r ! i = weighted_row_sum 1 (softmax_row (rows ?lg ! i)) (rows (weight toy_embedding))"
    by auto
  have "sum_list (softmax_row [0, 0]) = 1 \<and>
        rows r ! 0 = weighted_row_sum 1 (softmax_row [0, 0]) [[1], [2]]"
    using pt[rule_format, of 0] rl rw by simp
  moreover have "weighted_row_sum 1 [1 / 2, 1 / 2] [[1], [2]] = [3 / 2]"
    by (simp add: weighted_row_sum_def)
  ultimately show ?thesis using r sm by simp
qed

text \<open>
  Claim C9. The value that \<open>embed_inputs\<close> returns (or the exception it raises) is the
  same with \<open>print_entropy\<close> true and false; the flag only adds the entropy to what is
  printed.
\<close>

theorem embed_inputs_print_entropy:
  "snd (embed_inputs E lg device True) = snd (embed_inputs E lg device False)"
  by (simp add: embed_inputs_def Let_def)

section \<open>Transcript reconstruction: the result\<close>

lemma first_max_index_max:
  assumes "xs \<noteq> []"
  shows "first_max_index xs < length xs \<and> (\<forall>y\<in>set xs. y \<le> xs ! first_max_index xs)"
  using assms
proof (induction xs)
  case Nil
  then show ?case by simp
next
  case (Cons x xs)
  show ?case
  proof (cases "list_all (\<lambda>y. y \<le> x) xs")
    case True
    then show ?thesis by (simp add: list_all_iff)
  next
    case False
    then have ne: "xs \<noteq> []" by auto
    from False obtain z where z: "z \<in> set xs" "x < z" by (auto simp: list_all_iff not_le)
    from Cons.IH[OF ne] have ih: "first_max_index xs < length xs"
      "\<forall>y\<in>set xs. y \<le> xs ! first_max_index xs" by simp_all
    then have "x \<le> xs ! first_max_index xs" using z by fastforce
    then show ?thesis using False ih by simp
  qed
qed

lemma first_max_index_first:
  "j < first_max_index xs \<Longrightarrow> xs ! j < xs ! first_max_index xs"
proof (induction xs arbitrary: j)
  case Nil
  then show ?case by simp
next
  case (Cons x xs)
  show ?case
  proof (cases "list_all (\<lambda>y. y \<le> x) xs")
    case True
    then show ?thesis using Cons.prems by simp
  next
    case False
    then have ne: "xs \<noteq> []" by auto
    from False obtain z where z: "z \<in> set xs" "x < z" by (auto simp: list_all_iff not_le)
    have "z \<le> xs ! first_max_index xs" using first_max_index_max[OF ne] z by simp
    then have x: "x < xs ! first_max_index xs" using z by simp
    show ?thesis
    proof (cases j)
      case 0
      then show ?thesis using False x by simp
    next
      case (Suc i)
      then have "i < first_max_index xs" using Cons.prems False by simp
      then show ?thesis using Cons.IH Suc False by simp
    qed
  qed
qed

lemma tie_topk1_top1:
  assumes "r \<noteq> []"
  shows "tie_topk1 r < length r \<and> (\<forall>y\<in>set r. y \<le> r ! tie_topk1 r)"
proof -
  let ?j = "first_max_index r"
  note m = first_max_index_max[OF assms]
  show ?thesis
  proof (cases "?j + 2 < length r \<and> r ! (?j + 2) = r ! ?j")
    case True
    then have "tie_topk1 r = ?j + 2" by (simp add: tie_topk1_def Let_def)
    then show ?thesis using True m by simp
  next
    case False
    then have "tie_topk1 r = ?j" by (auto simp: tie_topk1_def Let_def)
    then show ?thesis using m by simp
  qed
qed

lemma log_softmax_row_nth:
  assumes "j < length xs"
  shows "log_softmax_row xs ! j = ln (softmax_row xs ! j)"
proof -
  have "xs \<noteq> []" using assms by auto
  then have "0 < sum_list (map exp xs)" by (rule sum_exp_pos)
  then have "ln (exp (xs ! j) / sum_list (map exp xs)) = xs ! j - ln (sum_list (map exp xs))"
    by (simp add: ln_divide_pos)
  then show ?thesis using assms by (simp add: log_softmax_row_def softmax_row_def)
qed


lemma index_item_nat:
  assumes "j < length xs"
  shows "index_item xs (int j) = Inr (xs ! j)"
  using assms by (simp add: index_item_def Let_def)

lemma for_each_append:
  "for_each body (xs @ ys) s = ebind (for_each body xs s) (for_each body ys)"
  by (induction xs arbitrary: s) (auto simp: ebind_def split: sum.splits)

lemma rows_vector:
  assumes "length xs = V"
  shows "rows \<lparr>shape = [V], data = xs\<rparr> = [xs]"
  using assms by (simp add: rows_def last_axis_def)

lemma greedy_vector:
  assumes "length xs = V" and "0 < V"
  shows "greedy topk1 \<lparr>shape = [V], data = xs\<rparr> = Inr \<lparr>shape = [1], data = [int (topk1 xs)]\<rparr>"
  using assms by (simp add: greedy_def rows_vector) (simp add: last_axis_def)

lemma cat_0_vectors:
  assumes "length xs = k" and "0 < k"
  shows "cat 0 \<lparr>shape = [k], data = xs\<rparr> \<lparr>shape = [1], data = [y]\<rparr>
         = Inr \<lparr>shape = [Suc k], data = xs @ [y]\<rparr>"
  using assms by (simp add: cat_def)

lemma gtl_body_row:
  assumes top1: "\<forall>r. r \<noteq> [] \<longrightarrow> topk1 r < length r \<and> (\<forall>y\<in>set r. y \<le> r ! topk1 r)"
    and "shape lg = [n, V]" and "well_shaped lg" and "0 < V" and "i < n"
    and "output_so_far st = (if i = 0 then None else Some \<lparr>shape = [i], data = ts\<rparr>)"
    and "length ts = i"
  shows "gtl_body topk1 lg i st =
           Inr (st\<lparr>last_var := Some \<lparr>shape = [1], data = [int (topk1 (rows lg ! i))]\<rparr>,
                   output_so_far := Some \<lparr>shape = [Suc i],
                                            data = ts @ [int (topk1 (rows lg ! i))]\<rparr>,
                   logp := logp st + log_softmax_row (rows lg ! i) ! topk1 (rows lg ! i)\<rparr>)"
proof -
  let ?r = "rows lg ! i"
  have "i < length (rows lg)" using assms(2,5) by (simp add: length_rows)
  then have "?r \<in> set (rows lg)" by simp
  then have len: "length ?r = V" using row_length[OF assms(3)] assms(2) by (simp add: last_axis_def)
  then have "?r \<noteq> []" using assms(4) by auto
  then have "topk1 ?r < length ?r" using top1 by blast
  then have "topk1 ?r < length (log_softmax_row ?r)" by (simp add: log_softmax_row_def)
  then have ix: "index_item (log_softmax_row ?r) (int (topk1 ?r))
                 = Inr (log_softmax_row ?r ! topk1 ?r)"
    by (rule index_item_nat)
  have g: "greedy topk1 \<lparr>shape = [V], data = ?r\<rparr> = Inr \<lparr>shape = [1], data = [int (topk1 ?r)]\<rparr>"
    using len assms(4) by (rule greedy_vector)
  show ?thesis
  proof (cases "i = 0")
    case True
    then show ?thesis
      using assms(2,6,7) g ix by (simp add: gtl_body_def Let_def ebind_def)
  next
    case False
    then have c: "cat 0 \<lparr>shape = [i], data = ts\<rparr> \<lparr>shape = [1], data = [int (topk1 ?r)]\<rparr>
               = Inr \<lparr>shape = [Suc i], data = ts @ [int (topk1 ?r)]\<rparr>"
      using assms(7) by (intro cat_0_vectors) simp_all
    show ?thesis
      using False assms(2,6) g c ix by (simp add: gtl_body_def Let_def ebind_def)
  qed
qed

lemma gtl_prefix:
  assumes top1: "\<forall>r. r \<noteq> [] \<longrightarrow> topk1 r < length r \<and> (\<forall>y\<in>set r. y \<le> r ! topk1 r)"
    and "shape lg = [n, V]" and "well_shaped lg" and "0 < V" and "k \<le> n"
  shows "for_each (gtl_body topk1 lg) [0..<k]
           \<lparr>output_so_far = None, last_var = None, logp = 0\<rparr> =
         Inr \<lparr>output_so_far = (if k = 0 then None
                 else Some \<lparr>shape = [k],
                            data = map (\<lambda>r. int (topk1 r)) (take k (rows lg))\<rparr>),
              last_var = (if k = 0 then None
                 else Some \<lparr>shape = [1], data = [int (topk1 (rows lg ! (k - 1)))]\<rparr>),
              logp = sum_list (map (\<lambda>r. log_softmax_row r ! topk1 r) (take k (rows lg)))\<rparr>"
  using assms(5)
proof (induction k)
  case 0
  then show ?case by simp
next
  case (Suc k)
  let ?st = "\<lparr>output_so_far = (if k = 0 then None
                 else Some \<lparr>shape = [k],
                            data = map (\<lambda>r. int (topk1 r)) (take k (rows lg))\<rparr>),
              last_var = (if k = 0 then None
                 else Some \<lparr>shape = [1], data = [int (topk1 (rows lg ! (k - 1)))]\<rparr>),
              logp = sum_list (map (\<lambda>r. log_softmax_row r ! topk1 r) (take k (rows lg)))\<rparr>"
  have ih: "for_each (gtl_body topk1 lg) [0..<k]
              \<lparr>output_so_far = None, last_var = None, logp = 0\<rparr> = Inr ?st"
    using Suc by simp
  have k: "k < n" using Suc.prems by simp
  then have kl: "k < length (rows lg)" using assms(2) by (simp add: length_rows)
  have tk: "take (Suc k) (rows lg) = take k (rows lg) @ [rows lg ! k]"
    using kl by (rule take_Suc_conv_app_nth)
  have b: "gtl_body topk1 lg k ?st =
           Inr (?st\<lparr>last_var := Some \<lparr>shape = [1], data = [int (topk1 (rows lg ! k))]\<rparr>,
                   output_so_far := Some \<lparr>shape = [Suc k],
                       data = map (\<lambda>r. int (topk1 r)) (take k (rows lg))
                                @ [int (topk1 (rows lg ! k))]\<rparr>,
                   logp := logp ?st + log_softmax_row (rows lg ! k) ! topk1 (rows lg ! k)\<rparr>)"
    using kl by (intro gtl_body_row[OF top1 assms(2,3,4) k]) simp_all
  have "for_each (gtl_body topk1 lg) [0..<Suc k]
          \<lparr>output_so_far = None, last_var = None, logp = 0\<rparr>
        = ebind (Inr ?st) (for_each (gtl_body topk1 lg) [k])"
    using ih by (simp add: for_each_append)
  also have "\<dots> = gtl_body topk1 lg k ?st"
    by (simp add: ebind_def split: sum.splits)
  finally show ?case unfolding b tk by simp
qed

lemma gtl_loop_matrix:
  assumes top1: "\<forall>r. r \<noteq> [] \<longrightarrow> topk1 r < length r \<and> (\<forall>y\<in>set r. y \<le> r ! topk1 r)"
    and "shape lg = [n, V]" and "well_shaped lg" and "0 < V" and "0 < n"
  shows "gtl_loop topk1 lg =
         Inr \<lparr>output_so_far = Some \<lparr>shape = [n],
                            data = map (\<lambda>r. int (topk1 r)) (rows lg)\<rparr>,
              last_var = Some \<lparr>shape = [1], data = [int (topk1 (rows lg ! (n - 1)))]\<rparr>,
              logp = sum_list (map (\<lambda>r. log_softmax_row r ! topk1 r) (rows lg))\<rparr>"
proof -
  have "take n (rows lg) = rows lg" using assms(2) by (simp add: length_rows)
  then show ?thesis
    using gtl_prefix[OF top1 assms(2,3,4) le_refl] assms(2,5) by (simp add: gtl_loop_def)
qed


lemma top1_is_maximal:
  assumes top1: "\<forall>r. r \<noteq> [] \<longrightarrow> topk1 r < length r \<and> (\<forall>y\<in>set r. y \<le> r ! topk1 r)"
    and "shape lg = [n, V]" and "well_shaped lg" and "0 < V" and "r \<in> set (rows lg)"
  shows "length r = V \<and> topk1 r < V \<and> (\<forall>y\<in>set r. y \<le> r ! topk1 r)"
proof -
  have l: "length r = V" using row_length[OF assms(3,5)] assms(2) by (simp add: last_axis_def)
  then have "r \<noteq> []" using assms(4) by auto
  then show ?thesis using top1 l by auto
qed

lemma get_text_from_logits_matrix:
  assumes top1: "\<forall>r. r \<noteq> [] \<longrightarrow> topk1 r < length r \<and> (\<forall>y\<in>set r. y \<le> r ! topk1 r)"
    and "shape lg = [n, V]" and "well_shaped lg" and "0 < n" and "0 < V"
  shows "get_text_from_logits topk1 lg tok =
           Inr (replace_newlines (decode tok (map (\<lambda>r. int (topk1 r)) (rows lg))),
                - sum_list (map (\<lambda>r. ln (softmax_row r ! topk1 r)) (rows lg)),
                \<lparr>shape = [n], data = map (\<lambda>r. int (topk1 r)) (rows lg)\<rparr>)"
proof -
  have lp: "map (\<lambda>r. log_softmax_row r ! topk1 r) (rows lg)
      = map (\<lambda>r. ln (softmax_row r ! topk1 r)) (rows lg)"
  proof (rule map_cong[OF refl])
    fix r assume r: "r \<in> set (rows lg)"
    have "topk1 r < length r"
      using top1_is_maximal[OF top1 assms(2,3,5) r] by simp
    then show "log_softmax_row r ! topk1 r = ln (softmax_row r ! topk1 r)"
      by (rule log_softmax_row_nth)
  qed
  show ?thesis
    unfolding get_text_from_logits_def gtl_loop_matrix[OF top1 assms(2,3,5,4)] lp[symmetric]
    by (simp add: ebind_def gtl_finish_def)
qed

lemma tie_topk1_contract:
  "\<forall>r. r \<noteq> [] \<longrightarrow> tie_topk1 r < length r \<and> (\<forall>y\<in>set r. y \<le> r ! tie_topk1 r)"
  using tie_topk1_top1 by blast

lemma toy_rows: "rows \<lparr>shape = [2, 2], data = [0, 1, 3, 2::real]\<rparr> = [[0, 1], [3, 2]]"
  by (simp add: rows_def last_axis_def upt_conv_Cons)


lemma tie_topk1_values:
  "tie_topk1 [5, 5, 5, 5] = 2" "tie_topk1 [0, 1] = 1" "tie_topk1 [3, 2] = 0"
  by (simp_all add: tie_topk1_def Let_def)

lemma gtl_body_stored_link:
  "gtl_body_stored topk1 a i (st, s) =
     ebind (gtl_body topk1 (s ! a) i st)
       (\<lambda>st'. Inr (st', s @ [\<lparr>shape = [shape (s ! a) ! 1],
                                data = log_softmax_row (rows (s ! a) ! i)\<rparr>]))"
  by (simp add: gtl_body_stored_def gtl_body_def Let_def ebind_def split: sum.splits)

lemma for_each_stored_link:
  assumes "a < length s"
  shows "\<exists>ext. for_each (gtl_body_stored topk1 a) is (st, s) =
           ebind (for_each (gtl_body topk1 (s ! a)) is st) (\<lambda>st'. Inr (st', s @ ext))"
  using assms
proof (induction "is" arbitrary: st s)
  case Nil
  have "for_each (gtl_body_stored topk1 a) [] (st, s) =
           ebind (for_each (gtl_body topk1 (s ! a)) [] st) (\<lambda>st'. Inr (st', s @ []))"
    by (simp add: ebind_def)
  then show ?case by blast
next
  case (Cons i "is")
  show ?case
  proof (cases "gtl_body topk1 (s ! a) i st")
    case (Inl e)
    then have "for_each (gtl_body_stored topk1 a) (i # is) (st, s) =
           ebind (for_each (gtl_body topk1 (s ! a)) (i # is) st) (\<lambda>st'. Inr (st', s @ []))"
      by (simp add: gtl_body_stored_link ebind_def)
    then show ?thesis by blast
  next
    case (Inr st1)
    let ?x = "\<lparr>shape = [shape (s ! a) ! 1], data = log_softmax_row (rows (s ! a) ! i)\<rparr>"
    have a1: "a < length (s @ [?x])" using Cons.prems by simp
    have rd: "(s @ [?x]) ! a = s ! a" using Cons.prems by (simp add: nth_append)
    from Cons.IH[OF a1, of st1] obtain ext where
      ih: "for_each (gtl_body_stored topk1 a) is (st1, s @ [?x]) =
           ebind (for_each (gtl_body topk1 (s ! a)) is st1) (\<lambda>st'. Inr (st', (s @ [?x]) @ ext))"
      unfolding rd by blast
    have "for_each (gtl_body_stored topk1 a) (i # is) (st, s)
          = for_each (gtl_body_stored topk1 a) is (st1, s @ [?x])"
      using Inr by (simp add: gtl_body_stored_link ebind_def)
    also have "\<dots> = ebind (for_each (gtl_body topk1 (s ! a)) is st1)
                        (\<lambda>st'. Inr (st', s @ (?x # ext)))"
      using ih by simp
    also have "\<dots> = ebind (for_each (gtl_body topk1 (s ! a)) (i # is) st)
                        (\<lambda>st'. Inr (st', s @ (?x # ext)))"
      using Inr by simp
    finally show ?thesis by blast
  qed
qed

lemma gtl_loop_stored_link:
  assumes "a < length s"
  shows "\<exists>ext. gtl_loop_stored topk1 s a =
           ebind (gtl_loop topk1 (s ! a)) (\<lambda>st'. Inr (st', s @ ext))"
proof (cases "shape (s ! a) = [] \<or> shape (s ! a) ! 0 = 0 \<or> length (shape (s ! a)) = 1
                \<or> 2 < length (shape (s ! a))")
  case False
  then have l: "gtl_loop_stored topk1 s a = for_each (gtl_body_stored topk1 a) [0..<shape (s ! a) ! 0]
             (\<lparr>output_so_far = None, last_var = None, logp = 0\<rparr>, s)"
    and v: "gtl_loop topk1 (s ! a) = for_each (gtl_body topk1 (s ! a)) [0..<shape (s ! a) ! 0]
             \<lparr>output_so_far = None, last_var = None, logp = 0\<rparr>"
    by (simp_all add: gtl_loop_stored_def gtl_loop_def)
  show ?thesis unfolding l v using for_each_stored_link[OF assms] by blast
next
  case True
  then have "gtl_loop_stored topk1 s a =
           ebind (gtl_loop topk1 (s ! a)) (\<lambda>st'. Inr (st', s @ []))"
    by (auto simp: gtl_loop_stored_def gtl_loop_def ebind_def)
  then show ?thesis by blast
qed

lemma get_text_from_logits_stored_link:
  assumes "a < length s"
  shows "\<exists>ext. get_text_from_logits_stored topk1 s a tok =
           ebind (get_text_from_logits topk1 (s ! a) tok) (\<lambda>r. Inr (r, s @ ext))"
proof -
  from gtl_loop_stored_link[OF assms] obtain ext where
    l: "gtl_loop_stored topk1 s a = ebind (gtl_loop topk1 (s ! a)) (\<lambda>st'. Inr (st', s @ ext))"
    by blast
  have "get_text_from_logits_stored topk1 s a tok =
           ebind (get_text_from_logits topk1 (s ! a) tok) (\<lambda>r. Inr (r, s @ ext))"
    unfolding get_text_from_logits_stored_def get_text_from_logits_def l
    by (simp add: ebind_def split: sum.splits)
  then show ?thesis by blast
qed



text \<open>
  Claim C8, with the logits in a store. When a call of \<open>get_text_from_logits\<close> on a stored
  logits tensor returns a text, a negative log-likelihood and token ids, it leaves the
  stored logits as they were (what it allocates takes fresh addresses), and a second call
  on the same address, in the store that the first call left and with the same
  detokenizer, returns the same text, the same negative log-likelihood and the same token
  ids.
\<close>

theorem get_text_from_logits_rerun:
  assumes "a < length s"
    and "get_text_from_logits_stored topk1 s a tok = Inr ((text, nll, ids), s')"
  shows "s' ! a = s ! a \<and>
         get_text_from_logits topk1 (s ! a) tok = Inr (text, nll, ids) \<and>
         (\<exists>s''. get_text_from_logits_stored topk1 s' a tok = Inr ((text, nll, ids), s''))"
proof -
  from get_text_from_logits_stored_link[OF assms(1)] obtain ext where
    l: "get_text_from_logits_stored topk1 s a tok =
           ebind (get_text_from_logits topk1 (s ! a) tok) (\<lambda>r. Inr (r, s @ ext))"
    by blast
  from l assms(2) have v: "get_text_from_logits topk1 (s ! a) tok = Inr (text, nll, ids)"
    and s': "s' = s @ ext"
    by (auto simp: ebind_def split: sum.splits)
  have rd: "s' ! a = s ! a" using s' assms(1) by (simp add: nth_append)
  have a': "a < length s'" using s' assms(1) by simp
  from get_text_from_logits_stored_link[OF a'] obtain ext' where
    "get_text_from_logits_stored topk1 s' a tok =
           ebind (get_text_from_logits topk1 (s' ! a) tok) (\<lambda>r. Inr (r, s' @ ext'))"
    by blast
  then have "get_text_from_logits_stored topk1 s' a tok = Inr ((text, nll, ids), s' @ ext')"
    unfolding rd v by (simp add: ebind_def)
  then show ?thesis using rd v by blast
qed

theorem get_text_from_logits_rerun_witness:
  "\<exists>nll s' s''.
     get_text_from_logits_stored tie_topk1 [\<lparr>shape = [2, 2], data = [0, 1, 3, 2]\<rparr>] 0 toy_tokenizer
       = Inr ((''a '', nll, \<lparr>shape = [2], data = [1, 0]\<rparr>), s') \<and>
     s' ! 0 = \<lparr>shape = [2, 2], data = [0, 1, 3, 2]\<rparr> \<and>
     get_text_from_logits_stored tie_topk1 s' 0 toy_tokenizer
       = Inr ((''a '', nll, \<lparr>shape = [2], data = [1, 0]\<rparr>), s'')"
proof -
  let ?lg = "\<lparr>shape = [2, 2], data = [0, 1, 3, 2::real]\<rparr>"
  let ?s = "[?lg]"
  have h1: "shape ?lg = [2, 2]" by simp
  have h2: "well_shaped ?lg" by (simp add: well_shaped_def)
  have h3: "(0::nat) < 2" by simp
  have a: "0 < length ?s" by simp
  obtain nll where v: "get_text_from_logits tie_topk1 ?lg toy_tokenizer
      = Inr (''a '', nll, \<lparr>shape = [2], data = [1, 0]\<rparr>)"
    using get_text_from_logits_matrix[OF tie_topk1_contract h1 h2 h3 h3, of toy_tokenizer,
        unfolded toy_rows]
    by (simp add: tie_topk1_values toy_tokenizer_def replace_newlines_def)
  from get_text_from_logits_stored_link[OF a, of tie_topk1 toy_tokenizer] obtain ext where
    "get_text_from_logits_stored tie_topk1 ?s 0 toy_tokenizer =
       ebind (get_text_from_logits tie_topk1 (?s ! 0) toy_tokenizer) (\<lambda>r. Inr (r, ?s @ ext))"
    by blast
  then have first: "get_text_from_logits_stored tie_topk1 ?s 0 toy_tokenizer
       = Inr ((''a '', nll, \<lparr>shape = [2], data = [1, 0]\<rparr>), ?s @ ext)"
    using v by (simp add: ebind_def)
  from get_text_from_logits_rerun[OF a first] first show ?thesis by auto
qed

text \<open>
  Claim C10. On a well-shaped logits matrix over a non-empty vocabulary (and \<open>topk\<close>
  picking the index of a largest element): with at least one step the loop ends with a
  token-id sequence that is not \<open>None\<close> and the function returns; with no step the
  sequence is still \<open>None\<close> and the function fails on \<open>None.tolist()\<close>.
\<close>

theorem get_text_from_logits_needs_steps:
  assumes top1: "\<forall>r. r \<noteq> [] \<longrightarrow> topk1 r < length r \<and> (\<forall>y\<in>set r. y \<le> r ! topk1 r)"
    and "shape lg = [n, V]" and "well_shaped lg" and "0 < V"
  shows "(0 < n \<longrightarrow>
            (\<exists>st out r. gtl_loop topk1 lg = Inr st \<and> output_so_far st = Some out \<and>
                        get_text_from_logits topk1 lg tok = Inr r))
       \<and> (n = 0 \<longrightarrow>
            (\<exists>st. gtl_loop topk1 lg = Inr st \<and> output_so_far st = None) \<and>
            get_text_from_logits topk1 lg tok = Inl AttributeError)"
proof (intro conjI impI)
  assume n: "0 < n"
  from gtl_loop_matrix[OF top1 assms(2,3,4) n] obtain st out where
    "gtl_loop topk1 lg = Inr st" "output_so_far st = Some out" by simp
  moreover from get_text_from_logits_matrix[OF top1 assms(2,3) n assms(4), of tok]
  obtain r where "get_text_from_logits topk1 lg tok = Inr r" by blast
  ultimately show "\<exists>st out r. gtl_loop topk1 lg = Inr st \<and> output_so_far st = Some out \<and>
                        get_text_from_logits topk1 lg tok = Inr r" by blast
next
  assume n: "n = 0"
  then have l: "gtl_loop topk1 lg = Inr \<lparr>output_so_far = None, last_var = None, logp = 0\<rparr>"
    using assms(2) by (simp add: gtl_loop_def)
  then show "\<exists>st. gtl_loop topk1 lg = Inr st \<and> output_so_far st = None" by simp
  show "get_text_from_logits topk1 lg tok = Inl AttributeError"
    unfolding get_text_from_logits_def l by (simp add: ebind_def gtl_finish_def)
qed

theorem get_text_from_logits_needs_steps_witness:
  "(\<exists>st out r. gtl_loop tie_topk1 \<lparr>shape = [1, 2], data = [0, 1]\<rparr> = Inr st \<and>
        output_so_far st = Some out \<and>
        get_text_from_logits tie_topk1 \<lparr>shape = [1, 2], data = [0, 1]\<rparr> toy_tokenizer = Inr r)
   \<and> (\<exists>st. gtl_loop tie_topk1 \<lparr>shape = [0, 2], data = []\<rparr> = Inr st \<and> output_so_far st = None)
   \<and> get_text_from_logits tie_topk1 \<lparr>shape = [0, 2], data = []\<rparr> toy_tokenizer = Inl AttributeError"
proof -
  let ?a = "\<lparr>shape = [1, 2], data = [0, 1::real]\<rparr>"
  let ?b = "\<lparr>shape = [0, 2], data = []::real list\<rparr>"
  have a1: "shape ?a = [1, 2]" and a2: "well_shaped ?a" by (simp_all add: well_shaped_def)
  have b1: "shape ?b = [0, 2]" and b2: "well_shaped ?b" by (simp_all add: well_shaped_def)
  have v: "(0::nat) < 2" by simp
  show ?thesis
    using get_text_from_logits_needs_steps[OF tie_topk1_contract a1 a2 v, of toy_tokenizer]
      get_text_from_logits_needs_steps[OF tie_topk1_contract b1 b2 v, of toy_tokenizer]
    by simp
qed

section \<open>Soft decoding: the length of the result\<close>

lemma for_range_Suc_end:
  "for_range body (Suc n) s = ebind (for_range body n s) body"
proof (induction n arbitrary: s)
  case 0
  show ?case by (simp add: ebind_def split: sum.splits)
next
  case (Suc n)
  show ?case
  proof (cases "body s")
    case (Inl e)
    then show ?thesis by (simp add: ebind_def)
  next
    case (Inr s')
    have "for_range body (Suc (Suc n)) s = for_range body (Suc n) s'"
      using Inr by (subst for_range.simps(2)) simp
    also have "\<dots> = ebind (for_range body n s') body" by (rule Suc)
    also have "\<dots> = ebind (for_range body (Suc n) s) body" using Inr by simp
    finally show ?thesis .
  qed
qed

lemma embed_inputs_shape:
  assumes "shape (weight E) = [V, e]" and "shape lg = [b, s, V]"
  shows "\<exists>x. snd (embed_inputs E lg device pe) = Inr x \<and> shape x = [b, s, e]"
proof -
  have "shape (softmax lg) = [b, s, V]" using assms(2) by (simp add: softmax_def)
  from matmul_rows[OF assms(1), of "softmax lg"] this obtain r where
    "matmul (softmax lg) (weight E) = Inr r" "shape r = [b, s, e]" by auto
  then show ?thesis by (simp add: embed_inputs_def Let_def)
qed

lemma select_last_shape:
  assumes "shape t = [b, s, V]" and "0 < s"
  shows "\<exists>l. select_last t = Inr l \<and> shape l = [b, V]"
  using assms by (simp add: select_last_def Let_def)

lemma unsqueeze_1_shape:
  assumes "shape t = [b, V]"
  shows "\<exists>l. unsqueeze 1 t = Inr l \<and> shape l = [b, 1, V] \<and> data l = data t"
  using assms by (simp add: unsqueeze_def unsqueeze_at_def Let_def)

lemma cat_1_shape:
  assumes "shape a = [b, k, V]" and "shape l = [b, j, V]"
  shows "\<exists>c. cat 1 a l = Inr c \<and> shape c = [b, k + j, V]"
  using assms by (simp add: cat_def Let_def)

lemma soft_forward_shape:
  assumes fwd: "\<And>p x s. shape x = [b, s, e] \<Longrightarrow> 0 < s \<Longrightarrow>
                  \<exists>out. forward m p (InputsEmbeds x) = Inr out \<and> shape (logits out) = [b, s, V]"
    and emb: "shape (weight (get_input_embeddings m)) = [V, e]"
    and x: "inputs_embeds st = Some x" "shape x = [b, s, e]" "0 < s"
    and sf: "logits_so_far st = None \<and> k = 0 \<or> (\<exists>t. logits_so_far st = Some t \<and> shape t = [b, k, V])"
  shows "\<exists>st' t x'. soft_forward m temperature device st = Inr st' \<and>
            logits_so_far st' = Some t \<and> shape t = [b, Suc k, V] \<and>
            inputs_embeds st' = Some x' \<and> shape x' = [b, 1, e]"
proof -
  from fwd[OF x(2,3), of "past st"] obtain out where
    out: "forward m (past st) (InputsEmbeds x) = Inr out" "shape (logits out) = [b, s, V]" by blast
  from select_last_shape[OF out(2) x(3)] obtain l1 where
    l1: "select_last (logits out) = Inr l1" "shape l1 = [b, V]" by blast
  have "shape (tdiv l1 temperature) = [b, V]" using l1(2) by (simp add: tdiv_def)
  from unsqueeze_1_shape[OF this] obtain l where
    l: "unsqueeze 1 (tdiv l1 temperature) = Inr l" "shape l = [b, 1, V]" by blast
  obtain c where c: "(case logits_so_far st of None \<Rightarrow> Inr l | Some sf \<Rightarrow> cat 1 sf l) = Inr c"
    "shape c = [b, Suc k, V]"
  proof (cases "logits_so_far st")
    case None
    then show ?thesis using that[of l] sf l(2) by auto
  next
    case (Some t)
    then have "shape t = [b, k, V]" using sf by auto
    from cat_1_shape[OF this l(2)] Some that show ?thesis by auto
  qed
  from embed_inputs_shape[OF emb l(2), of device False] obtain x' where
    x': "snd (embed_inputs (get_input_embeddings m) l device False) = Inr x'" "shape x' = [b, 1, e]"
    by blast
  have "soft_forward m temperature device st =
          Inr \<lparr>past = past_key_values out, inputs_embeds = Some x', logits_so_far = Some c,
               stdout = stdout st @ fst (embed_inputs (get_input_embeddings m) l device False)\<rparr>"
    using x(1) out(1) l1(1) l(1) c(1) x'(1)
    by (simp add: soft_forward_def ebind_def case_prod_unfold)
  then show ?thesis using c(2) x'(2) by simp
qed

lemma soft_step_shape:
  assumes fwd: "\<And>p x s. shape x = [b, s, e] \<Longrightarrow> 0 < s \<Longrightarrow>
                  \<exists>out. forward m p (InputsEmbeds x) = Inr out \<and> shape (logits out) = [b, s, V]"
    and emb: "shape (weight (get_input_embeddings m)) = [V, e]"
    and prompt: "shape input_one_hot1 = [b, s0, V]" "0 < s0"
    and st: "if k = 0 then st = soft_init
             else (\<exists>t x. logits_so_far st = Some t \<and> shape t = [b, k, V] \<and>
                         inputs_embeds st = Some x \<and> shape x = [b, 1, e])"
  shows "\<exists>st' t x'. soft_step m input_one_hot1 temperature device st = Inr st' \<and>
            logits_so_far st' = Some t \<and> shape t = [b, Suc k, V] \<and>
            inputs_embeds st' = Some x' \<and> shape x' = [b, 1, e]"
proof -
  have sf: "logits_so_far st = None \<and> k = 0 \<or> (\<exists>t. logits_so_far st = Some t \<and> shape t = [b, k, V])"
    using st by (cases "k = 0") (auto simp: soft_init_def)
  show ?thesis
  proof (cases "past st = None")
    case True
    have "shape (tdiv (to_float input_one_hot1) temperature) = [b, s0, V]"
      using prompt(1) by (simp add: tdiv_def to_float_def)
    from embed_inputs_shape[OF emb this, of "''cuda''" True] obtain x0 where
      x0: "snd (embed_inputs (get_input_embeddings m)
                  (tdiv (to_float input_one_hot1) temperature) ''cuda'' True) = Inr x0"
          "shape x0 = [b, s0, e]" by blast
    let ?st1 = "st\<lparr>inputs_embeds := Some x0,
                    stdout := stdout st @ fst (embed_inputs (get_input_embeddings m)
                       (tdiv (to_float input_one_hot1) temperature) ''cuda'' True)\<rparr>"
    have step: "soft_step m input_one_hot1 temperature device st
                = soft_forward m temperature device ?st1"
      using True x0(1) by (simp add: soft_step_def ebind_def case_prod_unfold)
    have "logits_so_far ?st1 = None \<and> k = 0 \<or>
          (\<exists>t. logits_so_far ?st1 = Some t \<and> shape t = [b, k, V])"
      using sf by simp
    from soft_forward_shape[where st = ?st1 and temperature = temperature and device = device,
        OF fwd emb _ x0(2) prompt(2) this]
    show ?thesis unfolding step by simp
  next
    case False
    have "k \<noteq> 0"
    proof
      assume "k = 0"
      then have "st = soft_init" using st by simp
      then show False using False by (simp add: soft_init_def)
    qed
    then obtain x where x: "inputs_embeds st = Some x" "shape x = [b, 1, e]"
      using st by auto
    from False obtain y where "past st = Some y" by auto
    then have step: "soft_step m input_one_hot1 temperature device st
                = soft_forward m temperature device st"
      by (simp add: soft_step_def ebind_def)
    from soft_forward_shape[where temperature = temperature and device = device,
        OF fwd emb x _ sf]
    show ?thesis unfolding step by simp
  qed
qed

lemma soft_run_shape:
  assumes fwd: "\<And>p x s. shape x = [b, s, e] \<Longrightarrow> 0 < s \<Longrightarrow>
                  \<exists>out. forward m p (InputsEmbeds x) = Inr out \<and> shape (logits out) = [b, s, V]"
    and emb: "shape (weight (get_input_embeddings m)) = [V, e]"
    and prompt: "shape input_one_hot1 = [b, s0, V]" "0 < s0"
  shows "\<exists>st. for_range (soft_step m input_one_hot1 temperature device) k soft_init = Inr st \<and>
           (if k = 0 then st = soft_init
            else (\<exists>t x. logits_so_far st = Some t \<and> shape t = [b, k, V] \<and>
                        inputs_embeds st = Some x \<and> shape x = [b, 1, e]))"
proof (induction k)
  case 0
  show ?case by simp
next
  case (Suc k)
  then obtain st where run: "for_range (soft_step m input_one_hot1 temperature device) k soft_init = Inr st"
    and inv: "if k = 0 then st = soft_init
              else (\<exists>t x. logits_so_far st = Some t \<and> shape t = [b, k, V] \<and>
                          inputs_embeds st = Some x \<and> shape x = [b, 1, e])"
    by blast
  from soft_step_shape[where temperature = temperature and device = device,
      OF fwd emb prompt inv] obtain st' t x' where
    s: "soft_step m input_one_hot1 temperature device st = Inr st'"
    and r: "logits_so_far st' = Some t" "shape t = [b, Suc k, V]"
       "inputs_embeds st' = Some x'" "shape x' = [b, 1, e]"
    by blast
  have "for_range (soft_step m input_one_hot1 temperature device) (Suc k) soft_init = Inr st'"
    unfolding for_range_Suc_end run using s by (simp add: ebind_def)
  then show ?case using r by simp
qed

lemma toy_forward_embeds:
  assumes "shape x = [1, s, 1]"
  shows "\<exists>out. forward toy_model p (InputsEmbeds x) = Inr out \<and> shape (logits out) = [1, s, 2]"
  using assms by (simp add: toy_model_def toy_forward_def)

lemma toy_cache:
  assumes "forward toy_model p x = Inr out"
  shows "past_key_values out \<noteq> None"
  using assms by (auto simp: toy_model_def toy_forward_def split: model_input.splits if_splits)

lemma toy_weight_shape: "shape (weight (get_input_embeddings toy_model)) = [2, 1]"
  by (simp add: toy_model_def toy_embedding_def)



section \<open>Soft decoding: what one iteration does\<close>

lemma soft_forward_unfold:
  assumes "soft_forward m temperature device st = Inr st'"
  shows "\<exists>x out l sf' x'.
      inputs_embeds st = Some x \<and>
      forward m (past st) (InputsEmbeds x) = Inr out \<and>
      ebind (select_last (logits out)) (\<lambda>l. unsqueeze 1 (tdiv l temperature)) = Inr l \<and>
      (case logits_so_far st of None \<Rightarrow> Inr l | Some sf \<Rightarrow> cat 1 sf l) = Inr sf' \<and>
      logits_so_far st' = Some sf' \<and>
      snd (embed_inputs (get_input_embeddings m) l device False) = Inr x' \<and>
      inputs_embeds st' = Some x' \<and> past st' = past_key_values out"
proof -
  from assms obtain x where x: "inputs_embeds st = Some x"
    by (auto simp: soft_forward_def split: option.splits)
  from assms x obtain out where out: "forward m (past st) (InputsEmbeds x) = Inr out"
    by (auto simp: soft_forward_def ebind_def split: sum.splits)
  from assms x out obtain l1 where l1: "select_last (logits out) = Inr l1"
    by (auto simp: soft_forward_def ebind_def split: sum.splits)
  from assms x out l1 obtain l where l: "unsqueeze 1 (tdiv l1 temperature) = Inr l"
    by (auto simp: soft_forward_def ebind_def split: sum.splits)
  from assms x out l1 l obtain sf' where
    sf: "(case logits_so_far st of None \<Rightarrow> Inr l | Some sf \<Rightarrow> cat 1 sf l) = Inr sf'"
    by (auto simp: soft_forward_def ebind_def split: sum.splits)
  from assms x out l1 l sf obtain x' where
    x': "snd (embed_inputs (get_input_embeddings m) l device False) = Inr x'"
    by (auto simp: soft_forward_def ebind_def case_prod_unfold split: sum.splits)
  have "st' = \<lparr>past = past_key_values out, inputs_embeds = Some x', logits_so_far = Some sf',
              stdout = stdout st @ fst (embed_inputs (get_input_embeddings m) l device False)\<rparr>"
    using assms x out l1 l sf x' by (simp add: soft_forward_def ebind_def case_prod_unfold)
  then have "logits_so_far st' = Some sf'" "inputs_embeds st' = Some x'"
    "past st' = past_key_values out" by simp_all
  moreover have "ebind (select_last (logits out)) (\<lambda>l. unsqueeze 1 (tdiv l temperature)) = Inr l"
    using l1 l by (simp add: ebind_def)
  ultimately show ?thesis using x out sf x' by blast
qed

lemma soft_step_unfold:
  assumes "soft_step m input_one_hot1 temperature device st = Inr st'"
  shows "\<exists>x out l sf' x'.
      (if past st = None
       then snd (embed_inputs (get_input_embeddings m)
                   (tdiv (to_float input_one_hot1) temperature) ''cuda'' True) = Inr x
       else inputs_embeds st = Some x) \<and>
      forward m (past st) (InputsEmbeds x) = Inr out \<and>
      ebind (select_last (logits out)) (\<lambda>l. unsqueeze 1 (tdiv l temperature)) = Inr l \<and>
      (case logits_so_far st of None \<Rightarrow> Inr l | Some sf \<Rightarrow> cat 1 sf l) = Inr sf' \<and>
      logits_so_far st' = Some sf' \<and>
      snd (embed_inputs (get_input_embeddings m) l device False) = Inr x' \<and>
      inputs_embeds st' = Some x' \<and> past st' = past_key_values out"
proof (cases "past st = None")
  case True
  let ?e = "embed_inputs (get_input_embeddings m)
              (tdiv (to_float input_one_hot1) temperature) ''cuda'' True"
  from assms True obtain x0 where x0: "snd ?e = Inr x0"
    by (auto simp: soft_step_def ebind_def case_prod_unfold split: sum.splits)
  let ?st1 = "st\<lparr>inputs_embeds := Some x0, stdout := stdout st @ fst ?e\<rparr>"
  have "soft_forward m temperature device ?st1 = Inr st'"
    using assms True x0 by (simp add: soft_step_def ebind_def case_prod_unfold)
  from soft_forward_unfold[OF this] obtain x out l sf' x' where
    r: "inputs_embeds ?st1 = Some x"
      "forward m (past ?st1) (InputsEmbeds x) = Inr out"
      "ebind (select_last (logits out)) (\<lambda>l. unsqueeze 1 (tdiv l temperature)) = Inr l"
      "(case logits_so_far ?st1 of None \<Rightarrow> Inr l | Some sf \<Rightarrow> cat 1 sf l) = Inr sf'"
      "logits_so_far st' = Some sf'"
      "snd (embed_inputs (get_input_embeddings m) l device False) = Inr x'"
      "inputs_embeds st' = Some x'" "past st' = past_key_values out"
    by blast
  have "x = x0" using r(1) by simp
  then have "if past st = None then snd ?e = Inr x else inputs_embeds st = Some x"
    using True x0 by simp
  moreover have "forward m (past st) (InputsEmbeds x) = Inr out" using r(2) by simp
  moreover have "(case logits_so_far st of None \<Rightarrow> Inr l | Some sf \<Rightarrow> cat 1 sf l) = Inr sf'"
    using r(4) by simp
  ultimately show ?thesis using r(3,5,6,7,8) by blast
next
  case False
  then obtain y where "past st = Some y" by auto
  then have "soft_forward m temperature device st = Inr st'"
    using assms by (simp add: soft_step_def ebind_def)
  from soft_forward_unfold[OF this] obtain x out l sf' x' where
    r: "inputs_embeds st = Some x"
      "forward m (past st) (InputsEmbeds x) = Inr out"
      "ebind (select_last (logits out)) (\<lambda>l. unsqueeze 1 (tdiv l temperature)) = Inr l"
      "(case logits_so_far st of None \<Rightarrow> Inr l | Some sf \<Rightarrow> cat 1 sf l) = Inr sf'"
      "logits_so_far st' = Some sf'"
      "snd (embed_inputs (get_input_embeddings m) l device False) = Inr x'"
      "inputs_embeds st' = Some x'" "past st' = past_key_values out"
    by blast
  have "if past st = None
        then snd (embed_inputs (get_input_embeddings m)
                   (tdiv (to_float input_one_hot1) temperature) ''cuda'' True) = Inr x
        else inputs_embeds st = Some x"
    using False r(1) by auto
  then show ?thesis using r(2-8) by blast
qed

lemma soft_run_past:
  assumes cache: "\<forall>p x out. forward m p x = Inr out \<longrightarrow> past_key_values out \<noteq> None"
    and run: "for_range (soft_step m input_one_hot1 temperature device) k soft_init = Inr st"
  shows "if k = 0 then st = soft_init else past st \<noteq> None"
proof (cases k)
  case 0
  then show ?thesis using run by simp
next
  case (Suc j)
  from run obtain st0 where
    "soft_step m input_one_hot1 temperature device st0 = Inr st"
    unfolding Suc for_range_Suc_end by (auto simp: ebind_def split: sum.splits)
  from soft_step_unfold[OF this] obtain x out where
    "forward m (past st0) (InputsEmbeds x) = Inr out" "past st = past_key_values out" by blast
  then show ?thesis using cache Suc by auto
qed

lemma soft_step_run:
  assumes cache: "\<forall>p x out. forward m p x = Inr out \<longrightarrow> past_key_values out \<noteq> None"
    and run: "for_range (soft_step m input_one_hot1 temperature device) k soft_init = Inr st"
    and step: "soft_step m input_one_hot1 temperature device st = Inr st'"
  shows "\<exists>x out l sf' x'.
      (if k = 0
       then snd (embed_inputs (get_input_embeddings m)
                   (tdiv (to_float input_one_hot1) temperature) ''cuda'' True) = Inr x
       else inputs_embeds st = Some x) \<and>
      forward m (past st) (InputsEmbeds x) = Inr out \<and>
      ebind (select_last (logits out)) (\<lambda>l. unsqueeze 1 (tdiv l temperature)) = Inr l \<and>
      (case logits_so_far st of None \<Rightarrow> Inr l | Some sf \<Rightarrow> cat 1 sf l) = Inr sf' \<and>
      logits_so_far st' = Some sf' \<and>
      snd (embed_inputs (get_input_embeddings m) l device False) = Inr x' \<and>
      inputs_embeds st' = Some x' \<and> past st' = past_key_values out \<and> past st' \<noteq> None"
proof -
  have k: "(k = 0) = (past st = None)"
    using soft_run_past[OF cache run] by (cases "k = 0") (simp_all add: soft_init_def)
  from soft_step_unfold[OF step] obtain x out l sf' x' where
    r: "if past st = None
       then snd (embed_inputs (get_input_embeddings m)
                   (tdiv (to_float input_one_hot1) temperature) ''cuda'' True) = Inr x
       else inputs_embeds st = Some x"
      "forward m (past st) (InputsEmbeds x) = Inr out"
      "ebind (select_last (logits out)) (\<lambda>l. unsqueeze 1 (tdiv l temperature)) = Inr l"
      "(case logits_so_far st of None \<Rightarrow> Inr l | Some sf \<Rightarrow> cat 1 sf l) = Inr sf'"
      "logits_so_far st' = Some sf'"
      "snd (embed_inputs (get_input_embeddings m) l device False) = Inr x'"
      "inputs_embeds st' = Some x'" "past st' = past_key_values out"
    by blast
  have "past st' \<noteq> None" using cache[rule_format, OF r(2)] r(8) by simp
  then show ?thesis using r k by auto
qed


lemma embedding_step_unfold:
  assumes "embedding_step m temperature device prompt_embedding st = Inr st'"
  shows "\<exists>x out l sf' x'.
      (if past st = None then x = prompt_embedding else inputs_embeds st = Some x) \<and>
      forward m (past st) (InputsEmbeds x) = Inr out \<and>
      ebind (select_last (logits out)) (\<lambda>l. unsqueeze 1 (tdiv l temperature)) = Inr l \<and>
      (case logits_so_far st of None \<Rightarrow> Inr l | Some sf \<Rightarrow> cat 1 sf l) = Inr sf' \<and>
      logits_so_far st' = Some sf' \<and>
      snd (embed_inputs (get_input_embeddings m) l device False) = Inr x' \<and>
      inputs_embeds st' = Some x' \<and> past st' = past_key_values out"
proof -
  let ?st1 = "if past st = None then st\<lparr>inputs_embeds := Some prompt_embedding\<rparr> else st"
  have "soft_forward m temperature device ?st1 = Inr st'"
    using assms by (simp add: embedding_step_def)
  from soft_forward_unfold[OF this] obtain x out l sf' x' where
    r: "inputs_embeds ?st1 = Some x"
      "forward m (past ?st1) (InputsEmbeds x) = Inr out"
      "ebind (select_last (logits out)) (\<lambda>l. unsqueeze 1 (tdiv l temperature)) = Inr l"
      "(case logits_so_far ?st1 of None \<Rightarrow> Inr l | Some sf \<Rightarrow> cat 1 sf l) = Inr sf'"
      "logits_so_far st' = Some sf'"
      "snd (embed_inputs (get_input_embeddings m) l device False) = Inr x'"
      "inputs_embeds st' = Some x'" "past st' = past_key_values out"
    by blast
  have "if past st = None then x = prompt_embedding else inputs_embeds st = Some x"
    using r(1) by (auto split: if_splits)
  moreover have "forward m (past st) (InputsEmbeds x) = Inr out"
    using r(2) by (auto split: if_splits)
  moreover have "(case logits_so_far st of None \<Rightarrow> Inr l | Some sf \<Rightarrow> cat 1 sf l) = Inr sf'"
    using r(4) by (auto split: if_splits)
  ultimately show ?thesis using r(3,5,6,7,8) by blast
qed

lemma embedding_run_past:
  assumes cache: "\<forall>p x out. forward m p x = Inr out \<longrightarrow> past_key_values out \<noteq> None"
    and run: "for_range (embedding_step m temperature device prompt_embedding) k soft_init = Inr st"
  shows "if k = 0 then st = soft_init else past st \<noteq> None"
proof (cases k)
  case 0
  then show ?thesis using run by simp
next
  case (Suc j)
  from run obtain st0 where
    "embedding_step m temperature device prompt_embedding st0 = Inr st"
    unfolding Suc for_range_Suc_end by (auto simp: ebind_def split: sum.splits)
  from embedding_step_unfold[OF this] obtain x out where
    "forward m (past st0) (InputsEmbeds x) = Inr out" "past st = past_key_values out" by blast
  then show ?thesis using cache Suc by auto
qed

lemma embedding_step_run:
  assumes cache: "\<forall>p x out. forward m p x = Inr out \<longrightarrow> past_key_values out \<noteq> None"
    and run: "for_range (embedding_step m temperature device prompt_embedding) k soft_init = Inr st"
    and step: "embedding_step m temperature device prompt_embedding st = Inr st'"
  shows "\<exists>x out l sf' x'.
      (if k = 0 then x = prompt_embedding else inputs_embeds st = Some x) \<and>
      forward m (past st) (InputsEmbeds x) = Inr out \<and>
      ebind (select_last (logits out)) (\<lambda>l. unsqueeze 1 (tdiv l temperature)) = Inr l \<and>
      (case logits_so_far st of None \<Rightarrow> Inr l | Some sf \<Rightarrow> cat 1 sf l) = Inr sf' \<and>
      logits_so_far st' = Some sf' \<and>
      snd (embed_inputs (get_input_embeddings m) l device False) = Inr x' \<and>
      inputs_embeds st' = Some x' \<and> past st' = past_key_values out \<and> past st' \<noteq> None"
proof -
  have k: "(k = 0) = (past st = None)"
    using embedding_run_past[OF cache run] by (cases "k = 0") (simp_all add: soft_init_def)
  from embedding_step_unfold[OF step] obtain x out l sf' x' where
    r: "if past st = None then x = prompt_embedding else inputs_embeds st = Some x"
      "forward m (past st) (InputsEmbeds x) = Inr out"
      "ebind (select_last (logits out)) (\<lambda>l. unsqueeze 1 (tdiv l temperature)) = Inr l"
      "(case logits_so_far st of None \<Rightarrow> Inr l | Some sf \<Rightarrow> cat 1 sf l) = Inr sf'"
      "logits_so_far st' = Some sf'"
      "snd (embed_inputs (get_input_embeddings m) l device False) = Inr x'"
      "inputs_embeds st' = Some x'" "past st' = past_key_values out"
    by blast
  have "past st' \<noteq> None" using cache[rule_format, OF r(2)] r(8) by simp
  moreover have "if k = 0 then x = prompt_embedding else inputs_embeds st = Some x"
    using r(1) k by auto
  ultimately show ?thesis using r(2-8) by blast
qed

lemma upt_2: "[0..<2] = [0, 1]"
  by (simp add: upt_conv_Cons)

lemma echo_embed_shape:
  "shape lg = [1, 1, 2] \<Longrightarrow> \<exists>x. snd (embed_inputs echo_embedding lg device pe) = Inr x"
  using embed_inputs_shape[of echo_embedding 2 2 lg 1 1 device pe] by (auto simp: echo_embedding_def)

lemma echo_embed_zero:
  "snd (embed_inputs echo_embedding \<lparr>shape = [1, 1, 2], data = [0, 0]\<rparr> device pe)
   = Inr \<lparr>shape = [1, 1, 2], data = [1 / 2, 1 / 2]\<rparr>"
  by (simp add: embed_inputs_def Let_def softmax_def rows_def last_axis_def matmul_def
      echo_embedding_def softmax_row_def dot_def column_def upt_2)

text \<open>
  Claim C4, as the code has it, for a model that returns a cached state from every forward
  pass. In \<open>decode_with_embeddings\<close> (and \<open>decode_with_one_hot\<close>, the same text), the
  model input of iteration 0 is the embedding projection of the one-hot prompt divided by
  the temperature; in \<open>decode_with_embedding\<close> it is the prompt embedding that was
  passed in, as it is. In both, the model input of every later iteration is the stored
  \<open>inputs_embeds\<close>; every iteration takes the last position of the model's logits,
  divides it by the temperature, appends it to \<open>logits_so_far\<close>, and stores the embedding
  projection of exactly these appended logits (not divided again) as \<open>inputs_embeds\<close>
  for the next iteration.
\<close>

theorem soft_step_behaviour:
  assumes cache: "\<forall>p x out. forward m p x = Inr out \<longrightarrow> past_key_values out \<noteq> None"
  shows "(\<forall>k st st'.
            for_range (soft_step m input_one_hot1 temperature device) k soft_init = Inr st \<and>
            soft_step m input_one_hot1 temperature device st = Inr st' \<longrightarrow>
            (\<exists>x out l sf' x'.
               (if k = 0
                then snd (embed_inputs (get_input_embeddings m)
                            (tdiv (to_float input_one_hot1) temperature) ''cuda'' True) = Inr x
                else inputs_embeds st = Some x) \<and>
               forward m (past st) (InputsEmbeds x) = Inr out \<and>
               ebind (select_last (logits out)) (\<lambda>l. unsqueeze 1 (tdiv l temperature)) = Inr l \<and>
               (case logits_so_far st of None \<Rightarrow> Inr l | Some sf \<Rightarrow> cat 1 sf l) = Inr sf' \<and>
               logits_so_far st' = Some sf' \<and>
               snd (embed_inputs (get_input_embeddings m) l device False) = Inr x' \<and>
               inputs_embeds st' = Some x' \<and> past st' = past_key_values out \<and> past st' \<noteq> None))
       \<and> (\<forall>k st st'.
            for_range (embedding_step m temperature device prompt_embedding) k soft_init = Inr st \<and>
            embedding_step m temperature device prompt_embedding st = Inr st' \<longrightarrow>
            (\<exists>x out l sf' x'.
               (if k = 0 then x = prompt_embedding else inputs_embeds st = Some x) \<and>
               forward m (past st) (InputsEmbeds x) = Inr out \<and>
               ebind (select_last (logits out)) (\<lambda>l. unsqueeze 1 (tdiv l temperature)) = Inr l \<and>
               (case logits_so_far st of None \<Rightarrow> Inr l | Some sf \<Rightarrow> cat 1 sf l) = Inr sf' \<and>
               logits_so_far st' = Some sf' \<and>
               snd (embed_inputs (get_input_embeddings m) l device False) = Inr x' \<and>
               inputs_embeds st' = Some x' \<and> past st' = past_key_values out \<and> past st' \<noteq> None))"
proof (intro conjI allI impI)
  fix k st st'
  assume "for_range (soft_step m input_one_hot1 temperature device) k soft_init = Inr st \<and>
          soft_step m input_one_hot1 temperature device st = Inr st'"
  then have r: "for_range (soft_step m input_one_hot1 temperature device) k soft_init = Inr st"
    and s: "soft_step m input_one_hot1 temperature device st = Inr st'" by simp_all
  show "\<exists>x out l sf' x'.
               (if k = 0
                then snd (embed_inputs (get_input_embeddings m)
                            (tdiv (to_float input_one_hot1) temperature) ''cuda'' True) = Inr x
                else inputs_embeds st = Some x) \<and>
               forward m (past st) (InputsEmbeds x) = Inr out \<and>
               ebind (select_last (logits out)) (\<lambda>l. unsqueeze 1 (tdiv l temperature)) = Inr l \<and>
               (case logits_so_far st of None \<Rightarrow> Inr l | Some sf \<Rightarrow> cat 1 sf l) = Inr sf' \<and>
               logits_so_far st' = Some sf' \<and>
               snd (embed_inputs (get_input_embeddings m) l device False) = Inr x' \<and>
               inputs_embeds st' = Some x' \<and> past st' = past_key_values out \<and> past st' \<noteq> None"
    by (rule soft_step_run[OF cache r s])
next
  fix k st st'
  assume "for_range (embedding_step m temperature device prompt_embedding) k soft_init = Inr st \<and>
          embedding_step m temperature device prompt_embedding st = Inr st'"
  then have r: "for_range (embedding_step m temperature device prompt_embedding) k soft_init = Inr st"
    and s: "embedding_step m temperature device prompt_embedding st = Inr st'" by simp_all
  show "\<exists>x out l sf' x'.
               (if k = 0 then x = prompt_embedding else inputs_embeds st = Some x) \<and>
               forward m (past st) (InputsEmbeds x) = Inr out \<and>
               ebind (select_last (logits out)) (\<lambda>l. unsqueeze 1 (tdiv l temperature)) = Inr l \<and>
               (case logits_so_far st of None \<Rightarrow> Inr l | Some sf \<Rightarrow> cat 1 sf l) = Inr sf' \<and>
               logits_so_far st' = Some sf' \<and>
               snd (embed_inputs (get_input_embeddings m) l device False) = Inr x' \<and>
               inputs_embeds st' = Some x' \<and> past st' = past_key_values out \<and> past st' \<noteq> None"
    by (rule embedding_step_run[OF cache r s])
qed

theorem soft_step_behaviour_witness:
  "(\<exists>st st' x out l sf' x'.
      for_range (soft_step toy_model \<lparr>shape = [1, 1, 2], data = [0, 1]\<rparr> (1 / 2) ''cpu'') 1
        soft_init = Inr st \<and>
      soft_step toy_model \<lparr>shape = [1, 1, 2], data = [0, 1]\<rparr> (1 / 2) ''cpu'' st = Inr st' \<and>
      inputs_embeds st = Some x \<and>
      forward toy_model (past st) (InputsEmbeds x) = Inr out \<and>
      ebind (select_last (logits out)) (\<lambda>l. unsqueeze 1 (tdiv l (1 / 2))) = Inr l \<and>
      (case logits_so_far st of None \<Rightarrow> Inr l | Some sf \<Rightarrow> cat 1 sf l) = Inr sf' \<and>
      logits_so_far st' = Some sf' \<and>
      snd (embed_inputs (get_input_embeddings toy_model) l ''cpu'' False) = Inr x' \<and>
      inputs_embeds st' = Some x' \<and> past st' = Some ())
   \<and> (\<exists>st' out l x'.
      embedding_step toy_model (1 / 2) ''cpu'' \<lparr>shape = [1, 1, 1], data = [5]\<rparr> soft_init = Inr st' \<and>
      forward toy_model None (InputsEmbeds \<lparr>shape = [1, 1, 1], data = [5]\<rparr>) = Inr out \<and>
      ebind (select_last (logits out)) (\<lambda>l. unsqueeze 1 (tdiv l (1 / 2))) = Inr l \<and>
      logits_so_far st' = Some l \<and>
      snd (embed_inputs (get_input_embeddings toy_model) l ''cpu'' False) = Inr x' \<and>
      inputs_embeds st' = Some x' \<and> past st' = Some ())"
proof -
  let ?oh = "\<lparr>shape = [1, 1, 2], data = [0, 1::int]\<rparr>"
  let ?pe = "\<lparr>shape = [1, 1, 1], data = [5::real]\<rparr>"
  let ?T = "1 / 2 :: real"
  have cache: "\<forall>p x out. forward toy_model p x = Inr out \<longrightarrow> past_key_values out \<noteq> None"
    using toy_cache by blast
  note t = soft_step_behaviour[of toy_model ?oh ?T "''cpu''" ?pe, OF cache]
  \<comment> \<open>the one-hot loop, second iteration\<close>
  have fwd: "\<And>p x s. shape x = [1, s, 1] \<Longrightarrow> 0 < s \<Longrightarrow>
      \<exists>out. forward toy_model p (InputsEmbeds x) = Inr out \<and> shape (logits out) = [1, s, 2]"
    by (rule toy_forward_embeds)
  have p1: "shape ?oh = [1, 1, 2]" and p2: "(0::nat) < 1" by simp_all
  from soft_run_shape[where temperature = ?T and device = "''cpu''" and k = 2,
      OF fwd toy_weight_shape p1 p2]
  obtain st2 where "for_range (soft_step toy_model ?oh ?T ''cpu'') (Suc 1) soft_init = Inr st2"
    by (auto simp: numeral_2_eq_2)
  then obtain st1 where r1: "for_range (soft_step toy_model ?oh ?T ''cpu'') 1 soft_init = Inr st1"
    and s1: "soft_step toy_model ?oh ?T ''cpu'' st1 = Inr st2"
    unfolding for_range_Suc_end by (auto simp: ebind_def split: sum.splits)
  from conjunct1[OF t, rule_format, OF conjI[OF r1 s1]] obtain x out l sf' x' where
    a0: "if (1::nat) = 0
         then snd (embed_inputs (get_input_embeddings toy_model)
                     (tdiv (to_float ?oh) ?T) ''cuda'' True) = Inr x
         else inputs_embeds st1 = Some x"
    and a: "forward toy_model (past st1) (InputsEmbeds x) = Inr out"
      "ebind (select_last (logits out)) (\<lambda>l. unsqueeze 1 (tdiv l ?T)) = Inr l"
      "(case logits_so_far st1 of None \<Rightarrow> Inr l | Some sf \<Rightarrow> cat 1 sf l) = Inr sf'"
      "logits_so_far st2 = Some sf'"
      "snd (embed_inputs (get_input_embeddings toy_model) l ''cpu'' False) = Inr x'"
      "inputs_embeds st2 = Some x'" "past st2 = past_key_values out" "past st2 \<noteq> None"
    apply (elim exE conjE)
    subgoal for x out l sf' x' by (rule that[of x out l sf' x'])
    done
  have a1: "inputs_embeds st1 = Some x" using a0 by simp
  have "past st2 = Some ()" using a(8) by auto
  then have first: "\<exists>st st' x out l sf' x'.
      for_range (soft_step toy_model ?oh ?T ''cpu'') 1 soft_init = Inr st \<and>
      soft_step toy_model ?oh ?T ''cpu'' st = Inr st' \<and>
      inputs_embeds st = Some x \<and>
      forward toy_model (past st) (InputsEmbeds x) = Inr out \<and>
      ebind (select_last (logits out)) (\<lambda>l. unsqueeze 1 (tdiv l ?T)) = Inr l \<and>
      (case logits_so_far st of None \<Rightarrow> Inr l | Some sf \<Rightarrow> cat 1 sf l) = Inr sf' \<and>
      logits_so_far st' = Some sf' \<and>
      snd (embed_inputs (get_input_embeddings toy_model) l ''cpu'' False) = Inr x' \<and>
      inputs_embeds st' = Some x' \<and> past st' = Some ()"
    using r1 s1 a1 a(1-6) by blast
  \<comment> \<open>the loop on a given prompt embedding, first iteration\<close>
  have r0: "for_range (embedding_step toy_model ?T ''cpu'' ?pe) 0 soft_init = Inr soft_init"
    by simp
  have pes: "shape ?pe = [1, 1, 1]" and isf: "logits_so_far soft_init = None"
    by (simp_all add: soft_init_def)
  from soft_forward_shape[where st = "soft_init\<lparr>inputs_embeds := Some ?pe\<rparr>" and k = 0
      and temperature = ?T and device = "''cpu''", OF fwd toy_weight_shape _ pes p2]
  obtain st' where "soft_forward toy_model ?T ''cpu'' (soft_init\<lparr>inputs_embeds := Some ?pe\<rparr>) = Inr st'"
    using isf by auto
  then have s0: "embedding_step toy_model ?T ''cpu'' ?pe soft_init = Inr st'"
    by (simp add: embedding_step_def soft_init_def)
  from conjunct2[OF t, rule_format, OF conjI[OF r0 s0]] obtain x out l sf' x' where
    b0: "if (0::nat) = 0 then x = ?pe else inputs_embeds (soft_init :: unit soft_state) = Some x"
    and b: "forward toy_model (past soft_init) (InputsEmbeds x) = Inr out"
      "ebind (select_last (logits out)) (\<lambda>l. unsqueeze 1 (tdiv l ?T)) = Inr l"
      "(case logits_so_far (soft_init :: unit soft_state) of None \<Rightarrow> Inr l | Some sf \<Rightarrow> cat 1 sf l) = Inr sf'"
      "logits_so_far st' = Some sf'"
      "snd (embed_inputs (get_input_embeddings toy_model) l ''cpu'' False) = Inr x'"
      "inputs_embeds st' = Some x'" "past st' = past_key_values out" "past st' \<noteq> None"
    apply (elim exE conjE)
    subgoal for x out l sf' x' by (rule that[of x out l sf' x'])
    done
  have "past st' = Some ()" using b(8) by auto
  moreover have "sf' = l" using b(3) by (simp add: soft_init_def)
  moreover have "forward toy_model None (InputsEmbeds ?pe) = Inr out"
    using b0 b(1) by (simp add: soft_init_def)
  ultimately have second: "\<exists>st' out l x'.
      embedding_step toy_model ?T ''cpu'' ?pe soft_init = Inr st' \<and>
      forward toy_model None (InputsEmbeds ?pe) = Inr out \<and>
      ebind (select_last (logits out)) (\<lambda>l. unsqueeze 1 (tdiv l ?T)) = Inr l \<and>
      logits_so_far st' = Some l \<and>
      snd (embed_inputs (get_input_embeddings toy_model) l ''cpu'' False) = Inr x' \<and>
      inputs_embeds st' = Some x' \<and> past st' = Some ()"
    using s0 b(2,4,5,6) by blast
  show ?thesis using first second by blast
qed

text \<open>
  The claim as the specification words it (the prompt is divided by the temperature and
  projected at step 0) fails for \<open>decode_with_embedding\<close>: on the echo model with
  temperature 1, the prompt \<open>[0, 0]\<close> reaches the model as it is and comes back as the
  first logits, while \<open>decode_with_embeddings\<close> on the same numbers feeds the model the
  projection \<open>[1/2, 1/2]\<close>.
\<close>

theorem soft_step_prompt_counterexample:
  "decode_with_embedding echo_model 1 1 ''cpu'' \<lparr>shape = [1, 1, 2], data = [0, 0]\<rparr>
     = Inr (Some \<lparr>shape = [1, 1, 2], data = [0, 0]\<rparr>)
   \<and> decode_with_embeddings echo_model 1 \<lparr>shape = [1, 1, 2], data = [0, 0]\<rparr> 1 ''cpu''
     = Inr (Some \<lparr>shape = [1, 1, 2], data = [1 / 2, 1 / 2]\<rparr>)"
proof
  let ?p = "\<lparr>shape = [1, 1, 2], data = [0, 0::real]\<rparr>"
  have sl: "select_last ?p = Inr \<lparr>shape = [1, 2], data = [0, 0]\<rparr>"
    by (simp add: select_last_def Let_def)
  have us: "unsqueeze 1 (tdiv \<lparr>shape = [1, 2], data = [0, 0]\<rparr> 1) = Inr ?p"
    by (simp add: unsqueeze_def unsqueeze_at_def tdiv_def Let_def)
  obtain x where x: "snd (embed_inputs echo_embedding ?p ''cpu'' False) = Inr x"
    using echo_embed_shape[of ?p] by auto
  have "embedding_step echo_model 1 ''cpu'' ?p soft_init
        = Inr \<lparr>past = Some (), inputs_embeds = Some x, logits_so_far = Some ?p,
               stdout = fst (embed_inputs echo_embedding ?p ''cpu'' False)\<rparr>"
    using x
    by (simp add: embedding_step_def soft_init_def soft_forward_def echo_model_def
        echo_forward_def ebind_def select_last_def unsqueeze_def unsqueeze_at_def tdiv_def
        Let_def case_prod_unfold)
  then show "decode_with_embedding echo_model 1 1 ''cpu'' ?p = Inr (Some ?p)"
    by (simp add: decode_with_embedding_def ebind_def)
next
  let ?oh = "\<lparr>shape = [1, 1, 2], data = [0, 0::int]\<rparr>"
  let ?q = "\<lparr>shape = [1, 1, 2], data = [1 / 2, 1 / 2::real]\<rparr>"
  have tf: "tdiv (to_float ?oh) 1 = \<lparr>shape = [1, 1, 2], data = [0, 0]\<rparr>"
    by (simp add: tdiv_def to_float_def)
  have sl: "select_last ?q = Inr \<lparr>shape = [1, 2], data = [1 / 2, 1 / 2]\<rparr>"
    by (simp add: select_last_def Let_def)
  have us: "unsqueeze 1 (tdiv \<lparr>shape = [1, 2], data = [1 / 2, 1 / 2]\<rparr> 1) = Inr ?q"
    by (simp add: unsqueeze_def unsqueeze_at_def tdiv_def Let_def)
  obtain x where x: "snd (embed_inputs echo_embedding ?q ''cpu'' False) = Inr x"
    using echo_embed_shape[of ?q] by auto
  have "soft_step echo_model ?oh 1 ''cpu'' soft_init
        = Inr \<lparr>past = Some (), inputs_embeds = Some x, logits_so_far = Some ?q,
               stdout = fst (embed_inputs echo_embedding \<lparr>shape = [1, 1, 2], data = [0, 0]\<rparr> ''cuda'' True)
                        @ fst (embed_inputs echo_embedding ?q ''cpu'' False)\<rparr>"
    using x echo_embed_zero[of "''cuda''" True]
    by (simp add: soft_step_def soft_init_def soft_forward_def echo_model_def to_float_def
        echo_forward_def ebind_def select_last_def unsqueeze_def unsqueeze_at_def tdiv_def
        Let_def case_prod_unfold)
  then show "decode_with_embeddings echo_model 1 ?oh 1 ''cpu'' = Inr (Some ?q)"
    by (simp add: decode_with_embeddings_def ebind_def)
qed

section \<open>Arg-max decoding: the loop and its specification\<close>

lemma select_last_row:
  assumes "shape t = [1, s, V]" and "0 < s"
  shows "select_last t = Inr \<lparr>shape = [1, V], data = last (rows t)\<rparr>"
proof -
  have "rows t = map (\<lambda>i. take V (drop (i * V) (data t))) [0..<s]"
    using assms(1) by (simp add: rows_def last_axis_def)
  moreover have "[0..<s] \<noteq> []" using assms(2) by simp
  ultimately have "last (rows t) = take V (drop ((s - 1) * V) (data t))"
    using assms(2) by (simp add: last_map)
  then show ?thesis using assms by (simp add: select_last_def Let_def)
qed

lemma last_row_length:
  assumes "shape t = [1, s, V]" and "0 < s" and "well_shaped t"
  shows "length (last (rows t)) = V"
proof -
  have "rows t \<noteq> []" using assms(1,2) by (simp add: rows_def)
  then have "last (rows t) \<in> set (rows t)" by simp
  from row_length[OF assms(3) this] show ?thesis using assms(1) by (simp add: last_axis_def)
qed

lemma length_concat_rows:
  assumes "\<forall>r\<in>set acc. length r = V"
  shows "length (concat acc) = length acc * V"
  using assms by (induction acc) simp_all

lemma cat_1_time:
  assumes "length xs = k * V" and "length row = V"
  shows "cat 1 \<lparr>shape = [1, k, V], data = xs\<rparr> \<lparr>shape = [1, 1, V], data = row\<rparr>
         = Inr \<lparr>shape = [1, Suc k, V], data = xs @ row\<rparr>"
  using assms by (simp add: cat_def)

lemma cat_1_ids:
  assumes "length toks = s"
  shows "cat 1 \<lparr>shape = [1, s], data = toks\<rparr> \<lparr>shape = [1, 1], data = [tok]\<rparr>
         = Inr \<lparr>shape = [1, Suc s], data = toks @ [tok]\<rparr>"
  using assms by (simp add: cat_def)

lemma argmax_step_sim:
  assumes fwd: "\<forall>ids s. shape ids = [1, s] \<and> 0 < s \<and> well_shaped ids \<longrightarrow>
                  (\<exists>out. forward m None (InputIds ids) = Inr out \<and>
                         shape (logits out) = [1, s, V] \<and> well_shaped (logits out))"
    and V: "0 < V" and toks: "toks \<noteq> []" and acc: "\<forall>r\<in>set acc. length r = V"
  shows "\<exists>out. forward m None (InputIds \<lparr>shape = [1, length toks], data = toks\<rparr>) = Inr out \<and>
           length (last (rows (logits out))) = V \<and>
           argmax_step m (argmax_state_of V toks acc) =
             Inr (argmax_state_of V (toks @ [int (first_max_index (last (rows (logits out))))])
                    (acc @ [last (rows (logits out))]))"
proof -
  let ?ids = "\<lparr>shape = [1, length toks], data = toks\<rparr>"
  have "shape ?ids = [1, length toks] \<and> 0 < length toks \<and> well_shaped ?ids"
    using toks by (simp add: well_shaped_def)
  with fwd obtain out where out: "forward m None (InputIds ?ids) = Inr out"
    and sh: "shape (logits out) = [1, length toks, V]" and ws: "well_shaped (logits out)"
    by blast
  let ?row = "last (rows (logits out))"
  have s: "0 < length toks" using toks by simp
  have sl: "select_last (logits out) = Inr \<lparr>shape = [1, V], data = ?row\<rparr>"
    using sh s by (rule select_last_row)
  have rl: "length ?row = V" using sh s ws by (rule last_row_length)
  then have rne: "?row \<noteq> []" using V by auto
  have us: "unsqueeze 1 \<lparr>shape = [1, V], data = ?row\<rparr> = Inr \<lparr>shape = [1, 1, V], data = ?row\<rparr>"
    by (simp add: unsqueeze_def unsqueeze_at_def Let_def)
  have ct: "(case logits_acc (argmax_state_of V toks acc) of
               None \<Rightarrow> Inr \<lparr>shape = [1, 1, V], data = ?row\<rparr>
             | Some sf \<Rightarrow> cat 1 sf \<lparr>shape = [1, 1, V], data = ?row\<rparr>)
            = Inr \<lparr>shape = [1, Suc (length acc), V], data = concat (acc @ [?row])\<rparr>"
  proof (cases "acc = []")
    case True
    then show ?thesis by (simp add: argmax_state_of_def)
  next
    case False
    have "length (concat acc) = length acc * V" using acc by (rule length_concat_rows)
    from cat_1_time[OF this rl] False show ?thesis by (simp add: argmax_state_of_def)
  qed
  have am: "argmax \<lparr>shape = [1, 1, V], data = ?row\<rparr>
            = Inr \<lparr>shape = [], data = [int (first_max_index ?row)]\<rparr>"
    using rne by (simp add: argmax_def)
  have u0: "unsqueeze 0 \<lparr>shape = [], data = [int (first_max_index ?row)]\<rparr>
            = Inr \<lparr>shape = [1], data = [int (first_max_index ?row)]\<rparr>"
    by (simp add: unsqueeze_def unsqueeze_at_def Let_def)
  have u1: "unsqueeze 0 \<lparr>shape = [1], data = [int (first_max_index ?row)]\<rparr>
            = Inr \<lparr>shape = [1, 1], data = [int (first_max_index ?row)]\<rparr>"
    by (simp add: unsqueeze_def unsqueeze_at_def Let_def)
  have ci: "cat 1 ?ids \<lparr>shape = [1, 1], data = [int (first_max_index ?row)]\<rparr>
            = Inr \<lparr>shape = [1, Suc (length toks)], data = toks @ [int (first_max_index ?row)]\<rparr>"
    by (rule cat_1_ids) simp
  have ii: "input_ids (argmax_state_of V toks acc) = ?ids" by (simp add: argmax_state_of_def)
  have "argmax_step m (argmax_state_of V toks acc) =
          Inr \<lparr>input_ids = \<lparr>shape = [1, Suc (length toks)],
                             data = toks @ [int (first_max_index ?row)]\<rparr>,
               logits_acc = Some \<lparr>shape = [1, Suc (length acc), V],
                                   data = concat (acc @ [?row])\<rparr>\<rparr>"
    by (simp only: argmax_step_def ii out sl us ct am u0 u1 ci ebind_def sum.case)
  then have "argmax_step m (argmax_state_of V toks acc) =
             Inr (argmax_state_of V (toks @ [int (first_max_index ?row)]) (acc @ [?row]))"
    by (simp add: argmax_state_of_def)
  then show ?thesis using out rl by blast
qed

lemma argmax_run_sim:
  assumes fwd: "\<forall>ids s. shape ids = [1, s] \<and> 0 < s \<and> well_shaped ids \<longrightarrow>
                  (\<exists>out. forward m None (InputIds ids) = Inr out \<and>
                         shape (logits out) = [1, s, V] \<and> well_shaped (logits out))"
    and V: "0 < V" and toks: "toks \<noteq> []" and acc: "\<forall>r\<in>set acc. length r = V"
  shows "\<exists>toks' acc'. argmax_decoding_spec m n toks acc = Inr (toks', acc') \<and>
           length acc' = length acc + n \<and> length toks' = length toks + n \<and>
           for_range (argmax_step m) n (argmax_state_of V toks acc)
             = Inr (argmax_state_of V toks' acc')"
  using toks acc
proof (induction n arbitrary: toks acc)
  case 0
  show ?case by simp
next
  case (Suc n)
  from argmax_step_sim[OF fwd V Suc.prems] obtain out where
    out: "forward m None (InputIds \<lparr>shape = [1, length toks], data = toks\<rparr>) = Inr out"
    and rl: "length (last (rows (logits out))) = V"
    and step: "argmax_step m (argmax_state_of V toks acc) =
             Inr (argmax_state_of V (toks @ [int (first_max_index (last (rows (logits out))))])
                    (acc @ [last (rows (logits out))]))"
    by blast
  let ?row = "last (rows (logits out))"
  let ?toks = "toks @ [int (first_max_index ?row)]"
  let ?acc = "acc @ [?row]"
  have "?toks \<noteq> []" by simp
  moreover have "\<forall>r\<in>set ?acc. length r = V" using Suc.prems(2) rl by simp
  ultimately obtain toks' acc' where
    ih: "argmax_decoding_spec m n ?toks ?acc = Inr (toks', acc')"
      "length acc' = length ?acc + n" "length toks' = length ?toks + n"
      "for_range (argmax_step m) n (argmax_state_of V ?toks ?acc) = Inr (argmax_state_of V toks' acc')"
    using Suc.IH by blast
  have "argmax_decoding_spec m (Suc n) toks acc = Inr (toks', acc')"
    using out ih(1) by (simp add: ebind_def Let_def)
  moreover have "for_range (argmax_step m) (Suc n) (argmax_state_of V toks acc)
                 = Inr (argmax_state_of V toks' acc')"
    using step ih(4) by simp
  ultimately show ?case using ih(2,3) by simp
qed

lemma toy_forward_ids:
  "\<forall>ids s. shape ids = [1, s] \<and> 0 < s \<and> well_shaped ids \<longrightarrow>
      (\<exists>out. forward toy_model None (InputIds ids) = Inr out \<and>
             shape (logits out) = [1, s, 2] \<and> well_shaped (logits out))"
  by (simp add: toy_model_def toy_forward_def well_shaped_def length_concat sum_list_replicate)

lemma toy_spec_run: "argmax_decoding_spec toy_model 2 [0] [] = Inr ([0, 1, 1], [[0, 1], [0, 1]])"
  by code_simp

text \<open>
  Claim C5, for one prompt of at least one token and a model that, given token ids of
  shape \<open>(1, s)\<close>, returns well-shaped logits of shape \<open>(1, s, V)\<close> over a non-empty
  vocabulary. \<open>decode_with_argmax\<close> with a length of at least 1 does what the
  specification's loop does: it ends with the token ids that the specification's loop
  computes (the prompt followed by the top-1 token of every step) and returns the last
  position logits of all steps, in order, as a tensor of shape \<open>(1, length, V)\<close>. Every
  forward pass is on the whole token-id sequence and is given no cached state.
\<close>

theorem decode_with_argmax_refines_spec:
  assumes fwd: "\<forall>ids s. shape ids = [1, s] \<and> 0 < s \<and> well_shaped ids \<longrightarrow>
                  (\<exists>out. forward m None (InputIds ids) = Inr out \<and>
                         shape (logits out) = [1, s, V] \<and> well_shaped (logits out))"
    and V: "0 < V" and toks: "toks \<noteq> []" and len: "1 \<le> len"
  shows "\<exists>toks' rs.
           argmax_decoding_spec m (nat len) toks [] = Inr (toks', rs) \<and>
           length rs = nat len \<and> length toks' = length toks + nat len \<and>
           for_range (argmax_step m) (nat len)
               \<lparr>input_ids = \<lparr>shape = [1, length toks], data = toks\<rparr>, logits_acc = None\<rparr>
             = Inr \<lparr>input_ids = \<lparr>shape = [1, length toks'], data = toks'\<rparr>,
                    logits_acc = Some \<lparr>shape = [1, nat len, V], data = concat rs\<rparr>\<rparr> \<and>
           decode_with_argmax m len \<lparr>shape = [1, length toks], data = toks\<rparr> device
             = Inr (Some \<lparr>shape = [1, nat len, V], data = concat rs\<rparr>)"
proof -
  have e: "\<forall>r\<in>set ([]::real list list). length r = V" by simp
  from argmax_run_sim[OF fwd V toks e, of "nat len"] obtain toks' rs where
    r: "argmax_decoding_spec m (nat len) toks [] = Inr (toks', rs)"
      "length rs = nat len" "length toks' = length toks + nat len"
      "for_range (argmax_step m) (nat len) (argmax_state_of V toks [])
         = Inr (argmax_state_of V toks' rs)"
    by auto
  have ne: "rs \<noteq> []" using r(2) len by auto
  have i: "argmax_state_of V toks []
           = \<lparr>input_ids = \<lparr>shape = [1, length toks], data = toks\<rparr>, logits_acc = None\<rparr>"
    by (simp add: argmax_state_of_def)
  have f: "argmax_state_of V toks' rs
           = \<lparr>input_ids = \<lparr>shape = [1, length toks'], data = toks'\<rparr>,
              logits_acc = Some \<lparr>shape = [1, nat len, V], data = concat rs\<rparr>\<rparr>"
    using ne r(2) by (simp add: argmax_state_of_def)
  have run: "for_range (argmax_step m) (nat len)
               \<lparr>input_ids = \<lparr>shape = [1, length toks], data = toks\<rparr>, logits_acc = None\<rparr>
             = Inr \<lparr>input_ids = \<lparr>shape = [1, length toks'], data = toks'\<rparr>,
                    logits_acc = Some \<lparr>shape = [1, nat len, V], data = concat rs\<rparr>\<rparr>"
    using r(4) unfolding i f .
  have "decode_with_argmax m len \<lparr>shape = [1, length toks], data = toks\<rparr> device
             = Inr (Some \<lparr>shape = [1, nat len, V], data = concat rs\<rparr>)"
    unfolding decode_with_argmax_def run by (simp add: ebind_def)
  then show ?thesis using r(1,2,3) run by blast
qed

theorem decode_with_argmax_refines_spec_witness:
  "argmax_decoding_spec toy_model 2 [0] [] = Inr ([0, 1, 1], [[0, 1], [0, 1]]) \<and>
   decode_with_argmax toy_model 2 \<lparr>shape = [1, 1], data = [0]\<rparr> ''cpu''
       = Inr (Some \<lparr>shape = [1, 2, 2], data = [0, 1, 0, 1]\<rparr>)"
proof -
  have v: "(0::nat) < 2" and t: "[0::int] \<noteq> []" and l: "(1::int) \<le> 2" by simp_all
  from decode_with_argmax_refines_spec[OF toy_forward_ids v t l, of "''cpu''"]
  obtain toks' rs where a: "argmax_decoding_spec toy_model 2 [0] [] = Inr (toks', rs)"
    and b: "decode_with_argmax toy_model 2 \<lparr>shape = [1, 1], data = [0]\<rparr> ''cpu''
       = Inr (Some \<lparr>shape = [1, 2, 2], data = concat rs\<rparr>)"
    by auto
  have "rs = [[0, 1], [0, 1]]" using a toy_spec_run by simp
  then show ?thesis using b toy_spec_run by simp
qed

end
